theory Spec2Isabelle
  imports Main "HOL-Library.Word"
begin

unbundle bit_operations_syntax

section \<open>Bytes, buffers and errors\<close>

text \<open>
  A \<open>Uint8Array\<close> is a list of 8-bit words; a JavaScript number that holds a length
  or an offset is a \<open>nat\<close>. Every \<open>ParseResult.fail\<close> of the source is a
  constructor of \<open>error\<close>, named after the message it carries.
\<close>

type_synonym u8 = "8 word"

datatype label_issue =
    LabelLength nat
  | InvalidCharacter "u8 option"
  | StartsWithHyphen
  | EndsWithHyphen
  | DoubleHyphen

datatype error =
    BufferTooShort nat
  | BufferUnderrun nat
  | LabelOverrun nat
  | InvalidLabel label_issue
  | NameTooLong
  | RecursivePointer
  | EmptyName
  | NameSizeIssue nat
  | EncodedByteLengthIssue nat
  | NotImplemented

text \<open>\<open>Uint8Array.prototype.at\<close> for an index that is never negative here.\<close>

definition at :: "u8 list \<Rightarrow> nat \<Rightarrow> u8 option" where
  "at uint8Array idx = (if idx < length uint8Array then Some (uint8Array ! idx) else None)"

text \<open>\<open>Uint8Array.prototype.subarray(begin, end)\<close>: both ends are clamped to the array.\<close>

definition subarray :: "u8 list \<Rightarrow> nat \<Rightarrow> nat \<Rightarrow> u8 list" where
  "subarray uint8Array begin end' = drop begin (take end' uint8Array)"

section \<open>Label\<close>

definition Digit :: "u8 \<Rightarrow> bool" where
  "Digit v = (48 \<le> unat v \<and> unat v \<le> 57)"

definition UppercaseAsciiAlphabet :: "u8 \<Rightarrow> bool" where
  "UppercaseAsciiAlphabet v = (65 \<le> unat v \<and> unat v \<le> 90)"

definition LowercaseAsciiAlphabet :: "u8 \<Rightarrow> bool" where
  "LowercaseAsciiAlphabet v = (97 \<le> unat v \<and> unat v \<le> 122)"

definition AsciiHyphen :: "u8 \<Rightarrow> bool" where
  "AsciiHyphen v = (v = 45)"

text \<open>The argument is \<open>unknown\<close> in the source: \<open>None\<close> is \<open>undefined\<close>.\<close>

definition isHypen :: "u8 option \<Rightarrow> bool" where
  "isHypen v = (case v of None \<Rightarrow> False | Some b \<Rightarrow> AsciiHyphen b)"

definition isValidLabelCharacter :: "u8 option \<Rightarrow> bool" where
  "isValidLabelCharacter v =
     (case v of
        None \<Rightarrow> False
      | Some b \<Rightarrow> Digit b \<or> UppercaseAsciiAlphabet b \<or> LowercaseAsciiAlphabet b \<or> AsciiHyphen b)"

text \<open>\<open>uint8Array.at(i) ?? 0\<close>\<close>

definition at_or_zero :: "u8 list \<Rightarrow> nat \<Rightarrow> u8" where
  "at_or_zero uint8Array idx = (case at uint8Array idx of None \<Rightarrow> 0 | Some b \<Rightarrow> b)"

definition isInternationalDomain :: "u8 list \<Rightarrow> bool" where
  "isInternationalDomain uint8Array =
     (at_or_zero uint8Array 0 = 120 \<and> at_or_zero uint8Array 1 = 110)"

text \<open>
  The \<open>for\<close> loop of the filter of \<open>Label\<close>, from index \<open>idx\<close> on: the first
  violated rule is returned, \<open>None\<close> when the loop runs to the end.
\<close>

function Label_loop :: "u8 list \<Rightarrow> nat \<Rightarrow> label_issue option" where
  "Label_loop uint8Array idx =
     (if idx < length uint8Array then
        (if \<not> isValidLabelCharacter (at uint8Array idx) then
           Some (InvalidCharacter (at uint8Array idx))
         else if idx = 0 \<and> isHypen (at uint8Array idx) then Some StartsWithHyphen
         else if idx = length uint8Array - 1 \<and> isHypen (at uint8Array idx) then
           Some EndsWithHyphen
         else if isHypen (if idx > 0 then at uint8Array (idx - 1) else None)
                 \<and> isHypen (at uint8Array idx) \<and> idx = 3
                 \<and> \<not> isInternationalDomain uint8Array then
           Some DoubleHyphen
         else Label_loop uint8Array (idx + 1))
      else None)"
  by pat_completeness auto
termination
  by (relation "measure (\<lambda>(uint8Array, idx). length uint8Array - idx)") auto

declare Label_loop.simps [simp del]

definition Label_filter :: "u8 list \<Rightarrow> label_issue option" where
  "Label_filter uint8Array =
     (if length uint8Array = 0 \<or> length uint8Array > 63 then
        Some (LabelLength (length uint8Array))
      else Label_loop uint8Array 0)"

text \<open>
  \<open>Schema.decode(Label)\<close> and \<open>Schema.encodeUnknown(Label)\<close>: the schema is a filter on
  \<open>Uint8ArrayFromSelf\<close>, so both directions return the bytes unchanged when the filter
  passes.
\<close>

definition decodeLabel :: "u8 list \<Rightarrow> error + u8 list" where
  "decodeLabel uint8Array =
     (case Label_filter uint8Array of
        Some issue \<Rightarrow> Inl (InvalidLabel issue)
      | None \<Rightarrow> Inr uint8Array)"

definition encodeLabelFromUnknown :: "u8 list \<Rightarrow> error + u8 list" where
  "encodeLabelFromUnknown label =
     (case Label_filter label of
        Some issue \<Rightarrow> Inl (InvalidLabel issue)
      | None \<Rightarrow> Inr label)"

section \<open>Bounds-checked reads and writes\<close>

text \<open>
  Modelled from the spec: \<open>utils\<close> (\<open>getUint8\<close>, \<open>getUint16\<close>, \<open>setUint8\<close>,
  \<open>uint8ArraySet\<close>) is not among the source files. The spec's Cursor section gives
  bounds-checked primitive reads (\<open>u8\<close>, \<open>u16\<close> big-endian) that fail rather than read
  past the end of the buffer; the writes are bounds-checked in the same way. A
  \<open>DataView\<close> over a \<open>Uint8Array\<close> is the list of the bytes it covers.
\<close>

definition getUint8 :: "u8 list \<Rightarrow> nat \<Rightarrow> error + nat" where
  "getUint8 dataView offset =
     (if offset < length dataView then Inr (unat (dataView ! offset))
      else Inl (BufferUnderrun offset))"

definition getUint16 :: "u8 list \<Rightarrow> nat \<Rightarrow> error + nat" where
  "getUint16 dataView offset =
     (if offset + 2 \<le> length dataView then
        Inr (256 * unat (dataView ! offset) + unat (dataView ! (offset + 1)))
      else Inl (BufferUnderrun offset))"

definition setUint8 :: "u8 list \<Rightarrow> nat \<Rightarrow> nat \<Rightarrow> error + u8 list" where
  "setUint8 dataView offset v =
     (if offset < length dataView then Inr (dataView[offset := of_nat v])
      else Inl (BufferUnderrun offset))"

definition uint8ArraySet :: "u8 list \<Rightarrow> u8 list \<Rightarrow> nat \<Rightarrow> error + u8 list" where
  "uint8ArraySet out source offset =
     (if offset + length source \<le> length out then
        Inr (take offset out @ source @ drop (offset + length source) out)
      else Inl (BufferUnderrun offset))"

definition byteIsPointer :: "nat \<Rightarrow> bool" where
  "byteIsPointer byte = (byte AND 0xc0 = 0xc0)"

definition getPointerOffset :: "nat \<Rightarrow> nat" where
  "getPointerOffset uint16 = uint16 AND 0x3fff"

section \<open>Name: the standalone decoder's loop\<close>

text \<open>
  The \<open>while (true)\<close> loop of \<open>NameFromUint8Array.decode\<close>, with its local variables
  as arguments. It returns the pair \<open>(labels, offset)\<close> the code builds its result from
  after the \<open>break\<close>.
\<close>

function NameFromUint8Array_loop ::
  "u8 list \<Rightarrow> nat \<Rightarrow> nat \<Rightarrow> u8 list list \<Rightarrow> error + (u8 list list \<times> nat)" where
  "NameFromUint8Array_loop uint8Array offset nameSize labels =
     (case getUint8 uint8Array offset of
        Inl e \<Rightarrow> Inl e
      | Inr len \<Rightarrow>
          if len = 0 then Inr (labels, offset)
          else if offset + 1 + len > length uint8Array then Inl (LabelOverrun offset)
          else
            (case decodeLabel (subarray uint8Array (offset + 1) (offset + 1 + len)) of
               Inl e \<Rightarrow> Inl e
             | Inr label \<Rightarrow>
                 if nameSize + length label > 255 then Inl NameTooLong
                 else NameFromUint8Array_loop uint8Array (offset + (len + 1))
                        (nameSize + length label) (labels @ [label])))"
  by pat_completeness auto
termination
  by (relation "measure (\<lambda>(uint8Array, offset, nameSize, labels). length uint8Array - offset)")
     (auto simp: getUint8_def split: if_splits)

declare NameFromUint8Array_loop.simps [simp del]

section \<open>Name: the packet-aware decoder's loop\<close>

text \<open>
  The local variables of \<open>NameFromDnsPacketCursor.decode\<close> that the loop changes:
  \<open>s_x\<close> is the variable \<open>x\<close> of the source.
\<close>

record loop_state =
  s_dataView :: "u8 list"
  s_offset :: nat
  s_bytesConsumed :: nat
  s_nameSize :: nat
  s_encounteredPointer :: bool
  s_labels :: "u8 list list"

text \<open>
  One iteration of the \<open>while (true)\<close> loop. \<open>packet\<close> is \<open>cursor.uint8Array\<close>, the
  whole packet; \<open>window\<close> is the constant \<open>uint8Array\<close>, the \<open>subarray\<close> taken at the
  cursor. \<open>Inl\<close> leaves the loop (with an error, or with the pair
  \<open>(labels, bytesConsumed)\<close> at the \<open>break\<close>), \<open>Inr\<close> is the state at the next
  iteration. After a pointer the length bytes are read through the new \<open>dataView\<close>
  (the whole packet), the label bytes still through \<open>uint8Array.subarray\<close> (the window).
\<close>

definition NameFromDnsPacketCursor_step ::
  "u8 list \<Rightarrow> u8 list \<Rightarrow> loop_state \<Rightarrow> (error + (u8 list list \<times> nat)) + loop_state" where
  "NameFromDnsPacketCursor_step packet window s =
     (case getUint8 (s_dataView s) (s_offset s) of
        Inl e \<Rightarrow> Inl (Inl e)
      | Inr byte \<Rightarrow>
          if byteIsPointer byte then
            (if s_encounteredPointer s then Inl (Inl RecursivePointer)
             else
               (case getUint16 (s_dataView s) (s_offset s) of
                  Inl e \<Rightarrow> Inl (Inl e)
                | Inr pointerAndOffset \<Rightarrow>
                    Inr (s\<lparr>s_encounteredPointer := True,
                           s_offset := getPointerOffset pointerAndOffset,
                           s_bytesConsumed := s_bytesConsumed s + 2,
                           s_dataView := packet\<rparr>)))
          else if byte = 0 then Inl (Inr (s_labels s, s_bytesConsumed s))
          else if s_offset s + 1 + byte > length (s_dataView s) then
            Inl (Inl (LabelOverrun (s_offset s)))
          else
            (case decodeLabel (subarray window (s_offset s + 1) (s_offset s + 1 + byte)) of
               Inl e \<Rightarrow> Inl (Inl e)
             | Inr label \<Rightarrow>
                 if s_nameSize s + length label > 255 then Inl (Inl NameTooLong)
                 else
                   Inr (s\<lparr>s_nameSize := s_nameSize s + length label,
                          s_labels := s_labels s @ [label],
                          s_offset := s_offset s + (byte + 1),
                          s_bytesConsumed :=
                            (if s_encounteredPointer s then s_bytesConsumed s
                             else s_offset s + (byte + 1))\<rparr>)))"

text \<open>The loop itself: \<open>None\<close> would be a loop that never leaves.\<close>

partial_function (option) NameFromDnsPacketCursor_loop ::
  "u8 list \<Rightarrow> u8 list \<Rightarrow> loop_state \<Rightarrow> (error + (u8 list list \<times> nat)) option" where
  "NameFromDnsPacketCursor_loop packet window s =
     (case NameFromDnsPacketCursor_step packet window s of
        Inl result \<Rightarrow> Some result
      | Inr s' \<Rightarrow> NameFromDnsPacketCursor_loop packet window s')"

declare NameFromDnsPacketCursor_loop.simps [code]

text \<open>The state after \<open>n\<close> iterations, \<open>None\<close> when the loop has left before.\<close>

fun NameFromDnsPacketCursor_iterate ::
  "nat \<Rightarrow> u8 list \<Rightarrow> u8 list \<Rightarrow> loop_state \<Rightarrow> loop_state option" where
  "NameFromDnsPacketCursor_iterate 0 packet window s = Some s"
| "NameFromDnsPacketCursor_iterate (Suc n) packet window s =
     (case NameFromDnsPacketCursor_step packet window s of
        Inl result \<Rightarrow> None
      | Inr s' \<Rightarrow> NameFromDnsPacketCursor_iterate n packet window s')"

text \<open>The iteration at \<open>s\<close> follows a compression pointer: it takes the jump.\<close>

definition follows_pointer :: "loop_state \<Rightarrow> bool" where
  "follows_pointer s =
     (case getUint8 (s_dataView s) (s_offset s) of
        Inl e \<Rightarrow> False
      | Inr byte \<Rightarrow>
          byteIsPointer byte \<and> \<not> s_encounteredPointer s
          \<and> (case getUint16 (s_dataView s) (s_offset s) of Inl e \<Rightarrow> False | Inr v \<Rightarrow> True))"

section \<open>Name: schema, decoders and encoder\<close>

record Name =
  labels :: "u8 list list"
  encodedByteLength :: nat

text \<open>\<open>Schema.Array(Label)\<close>: every element passes \<open>Label\<close>, the first failure is returned.\<close>

fun Array_Label :: "u8 list list \<Rightarrow> error + u8 list list" where
  "Array_Label [] = Inr []"
| "Array_Label (l # ls) =
     (case decodeLabel l of
        Inl e \<Rightarrow> Inl e
      | Inr l' \<Rightarrow> (case Array_Label ls of Inl e \<Rightarrow> Inl e | Inr ls' \<Rightarrow> Inr (l' # ls')))"

text \<open>
  The filter on \<open>labels\<close>: \<open>bytes\<close> is the number of labels plus their byte lengths;
  \<open>++bytes\<close> counts the terminator.
\<close>

definition Name_labels_filter :: "u8 list list \<Rightarrow> error option" where
  "Name_labels_filter ls =
     (let bytes = length ls + sum_list (map length ls)
      in if bytes = 0 then Some (NameSizeIssue bytes)
         else if bytes + 1 > 255 then Some (NameSizeIssue (bytes + 1))
         else None)"

text \<open>
  The schema \<open>Name\<close>, as \<open>Schema.decode\<close> and \<open>Schema.encode\<close> apply it to the result or
  the argument of a transformation: the properties are checked in the order of the
  \<open>Struct\<close>.
\<close>

definition Name_schema :: "Name \<Rightarrow> error + Name" where
  "Name_schema name =
     (case Array_Label (labels name) of
        Inl e \<Rightarrow> Inl e
      | Inr ls \<Rightarrow>
          (case Name_labels_filter ls of
             Some e \<Rightarrow> Inl e
           | None \<Rightarrow>
               if 1 \<le> encodedByteLength name \<and> encodedByteLength name \<le> 255 then
                 Inr \<lparr>labels = ls, encodedByteLength = encodedByteLength name\<rparr>
               else Inl (EncodedByteLengthIssue (encodedByteLength name))))"

definition NameFromUint8Array_decode :: "u8 list \<Rightarrow> error + Name" where
  "NameFromUint8Array_decode bytes =
     (if length bytes < 2 then Inl (BufferTooShort (length bytes))
      else
        (case NameFromUint8Array_loop bytes 0 0 [] of
           Inl e \<Rightarrow> Inl e
         | Inr (ls, off) \<Rightarrow> Inr \<lparr>labels = ls, encodedByteLength = off\<rparr>))"

text \<open>\<open>Schema.decode(NameFromUint8Array)\<close>: the transformation, then the schema \<open>Name\<close>.\<close>

definition decodeNameFromUint8Array :: "u8 list \<Rightarrow> error + Name" where
  "decodeNameFromUint8Array bytes =
     (case NameFromUint8Array_decode bytes of
        Inl e \<Rightarrow> Inl e
      | Inr name \<Rightarrow> Name_schema name)"

text \<open>The first \<open>for\<close> loop of \<open>encode\<close>: every label is validated, \<open>nameSize\<close> grows.\<close>

fun encode_size_loop :: "u8 list list \<Rightarrow> nat \<Rightarrow> error + nat" where
  "encode_size_loop [] nameSize = Inr nameSize"
| "encode_size_loop (l # ls) nameSize =
     (case encodeLabelFromUnknown l of
        Inl e \<Rightarrow> Inl e
      | Inr label \<Rightarrow>
          if nameSize + length label > 255 then Inl NameTooLong
          else encode_size_loop ls (nameSize + length label))"

text \<open>The second loop: a length byte, then the label's bytes, at \<open>writeOffset\<close>.\<close>

fun encode_write_loop :: "u8 list list \<Rightarrow> u8 list \<Rightarrow> nat \<Rightarrow> error + (u8 list \<times> nat)" where
  "encode_write_loop [] out writeOffset = Inr (out, writeOffset)"
| "encode_write_loop (label # ls) out writeOffset =
     (case setUint8 out writeOffset (length label) of
        Inl e \<Rightarrow> Inl e
      | Inr out1 \<Rightarrow>
          (case uint8ArraySet out1 label (writeOffset + 1) of
             Inl e \<Rightarrow> Inl e
           | Inr out2 \<Rightarrow> encode_write_loop ls out2 (writeOffset + 1 + length label)))"

definition NameFromUint8Array_encode :: "Name \<Rightarrow> error + u8 list" where
  "NameFromUint8Array_encode name =
     (if length (labels name) = 0 then Inl EmptyName
      else
        (case encode_size_loop (labels name) (length (labels name) + 1) of
           Inl e \<Rightarrow> Inl e
         | Inr nameSize \<Rightarrow>
             (case encode_write_loop (labels name) (replicate nameSize 0) 0 of
                Inl e \<Rightarrow> Inl e
              | Inr (out, writeOffset) \<Rightarrow> setUint8 out writeOffset 0)))"

text \<open>\<open>Schema.encode(NameFromUint8Array)\<close>: the schema \<open>Name\<close>, then the transformation.\<close>

definition encodeNameFromUint8Array :: "Name \<Rightarrow> error + u8 list" where
  "encodeNameFromUint8Array name =
     (case Name_schema name of
        Inl e \<Rightarrow> Inl e
      | Inr name' \<Rightarrow> NameFromUint8Array_encode name')"

section \<open>The packet cursor and the packet-aware decoder\<close>

record DnsPacketCursor =
  uint8Array :: "u8 list"
  offset :: nat

definition MAX_NAME_BYTE_LENGTH :: nat where
  "MAX_NAME_BYTE_LENGTH = 255"

definition cursor_window :: "DnsPacketCursor \<Rightarrow> u8 list" where
  "cursor_window cursor =
     subarray (uint8Array cursor) (offset cursor) (offset cursor + MAX_NAME_BYTE_LENGTH)"

definition initial_state :: "u8 list \<Rightarrow> loop_state" where
  "initial_state window =
     \<lparr>s_dataView = window, s_offset = 0, s_bytesConsumed = 0, s_nameSize = 0,
      s_encounteredPointer = False, s_labels = []\<rparr>"

definition NameFromDnsPacketCursor_decode :: "DnsPacketCursor \<Rightarrow> (error + Name) option" where
  "NameFromDnsPacketCursor_decode cursor =
     (if length (cursor_window cursor) < 2 then
        Some (Inl (BufferTooShort (length (cursor_window cursor))))
      else
        (case NameFromDnsPacketCursor_loop (uint8Array cursor) (cursor_window cursor)
                (initial_state (cursor_window cursor)) of
           None \<Rightarrow> None
         | Some (Inl e) \<Rightarrow> Some (Inl e)
         | Some (Inr (ls, consumed)) \<Rightarrow>
             Some (Inr \<lparr>labels = ls, encodedByteLength = consumed\<rparr>)))"

text \<open>\<open>Schema.decode(NameFromDnsPacketCursor)\<close>: the transformation, then the schema \<open>Name\<close>.\<close>

definition decodeNameFromDnsPacketCursor :: "DnsPacketCursor \<Rightarrow> (error + Name) option" where
  "decodeNameFromDnsPacketCursor cursor =
     (case NameFromDnsPacketCursor_decode cursor of
        None \<Rightarrow> None
      | Some (Inl e) \<Rightarrow> Some (Inl e)
      | Some (Inr name) \<Rightarrow> Some (Name_schema name))"

section \<open>Message\<close>

text \<open>
  Modelled from the spec: \<open>header\<close>, \<open>question\<close>, \<open>resource-record\<close> and \<open>types\<close> are
  not among the source files. Of the header only the four counts the framer reads are
  kept; \<open>DnsPacketCursor.fromUint8Array\<close> is the cursor at offset 0 over the whole
  packet. The three decoders the framer calls are parameters of the model: each takes
  the cursor and returns its element with the \<open>encodedByteLength\<close> it reports, and
  leaves the cursor as it is (as the name decoder above does).
\<close>

record Header =
  qdcount :: nat
  ancount :: nat
  nscount :: nat
  arcount :: nat

record ('q, 'r) Message =
  header :: Header
  question :: "'q list"
  answer :: "'r list"
  authority :: "'r list"
  additional :: "'r list"

definition HEADER_BYTE_LENGTH :: nat where
  "HEADER_BYTE_LENGTH = 12"

definition fromUint8Array :: "u8 list \<Rightarrow> DnsPacketCursor" where
  "fromUint8Array bytes = \<lparr>uint8Array = bytes, offset = 0\<rparr>"

text \<open>
  One \<open>for\<close> loop of the framer, with \<open>n\<close> iterations left: decode an element at the
  cursor, push it, \<open>cursor.offset += encodedByteLength + 1\<close>.
\<close>

fun section_loop ::
  "(DnsPacketCursor \<Rightarrow> error + ('a \<times> nat)) \<Rightarrow> nat \<Rightarrow> DnsPacketCursor \<Rightarrow> 'a list
     \<Rightarrow> error + ('a list \<times> DnsPacketCursor)" where
  "section_loop decodeElement 0 cursor elements = Inr (elements, cursor)"
| "section_loop decodeElement (Suc n) cursor elements =
     (case decodeElement cursor of
        Inl e \<Rightarrow> Inl e
      | Inr (element, len) \<Rightarrow>
          section_loop decodeElement n
            (cursor\<lparr>offset := offset cursor + (len + 1)\<rparr>) (elements @ [element]))"

text \<open>
  \<open>MessageFromUint8Array.decode\<close>, returning the cursor as the last loop leaves it
  beside the message, so that the cursor's movement can be stated.
\<close>

definition MessageFromUint8Array_run ::
  "(u8 list \<Rightarrow> error + Header) \<Rightarrow> (DnsPacketCursor \<Rightarrow> error + ('q \<times> nat))
     \<Rightarrow> (DnsPacketCursor \<Rightarrow> error + ('r \<times> nat)) \<Rightarrow> u8 list
     \<Rightarrow> error + (('q, 'r) Message \<times> DnsPacketCursor)" where
  "MessageFromUint8Array_run decodeHeaderFromUint8Array decodeQuestionFromDnsPacketCursor
       decodeResourceRecordFromDnsPacketCursor bytes =
     (case decodeHeaderFromUint8Array
             (subarray bytes (offset (fromUint8Array bytes)) HEADER_BYTE_LENGTH) of
        Inl e \<Rightarrow> Inl e
      | Inr hdr \<Rightarrow>
     (case section_loop decodeQuestionFromDnsPacketCursor (qdcount hdr)
             ((fromUint8Array bytes)
                \<lparr>offset := offset (fromUint8Array bytes) + HEADER_BYTE_LENGTH\<rparr>) [] of
        Inl e \<Rightarrow> Inl e
      | Inr (questions, cursor1) \<Rightarrow>
     (case section_loop decodeResourceRecordFromDnsPacketCursor (ancount hdr) cursor1 [] of
        Inl e \<Rightarrow> Inl e
      | Inr (answers, cursor2) \<Rightarrow>
     (case section_loop decodeResourceRecordFromDnsPacketCursor (nscount hdr) cursor2 [] of
        Inl e \<Rightarrow> Inl e
      | Inr (authorityRecords, cursor3) \<Rightarrow>
     (case section_loop decodeResourceRecordFromDnsPacketCursor (arcount hdr) cursor3 [] of
        Inl e \<Rightarrow> Inl e
      | Inr (additionalRecords, cursor4) \<Rightarrow>
          Inr (\<lparr>header = hdr, question = questions, answer = answers,
                authority = authorityRecords, additional = additionalRecords\<rparr>,
               cursor4))))))"

definition MessageFromUint8Array_decode ::
  "(u8 list \<Rightarrow> error + Header) \<Rightarrow> (DnsPacketCursor \<Rightarrow> error + ('q \<times> nat))
     \<Rightarrow> (DnsPacketCursor \<Rightarrow> error + ('r \<times> nat)) \<Rightarrow> u8 list
     \<Rightarrow> error + ('q, 'r) Message" where
  "MessageFromUint8Array_decode decodeHeaderFromUint8Array decodeQuestionFromDnsPacketCursor
       decodeResourceRecordFromDnsPacketCursor bytes =
     (case MessageFromUint8Array_run decodeHeaderFromUint8Array
             decodeQuestionFromDnsPacketCursor decodeResourceRecordFromDnsPacketCursor bytes of
        Inl e \<Rightarrow> Inl e
      | Inr (message, cursor) \<Rightarrow> Inr message)"

text \<open>
  The decoder \<open>decodeElement\<close>, called at \<open>cursor\<close> and then after each element at the
  offset \<open>gap\<close> bytes past the length the element reported, returns the elements and
  lengths of \<open>reported\<close>, in order.
\<close>

fun reports ::
  "nat \<Rightarrow> (DnsPacketCursor \<Rightarrow> error + ('a \<times> nat)) \<Rightarrow> DnsPacketCursor \<Rightarrow> ('a \<times> nat) list
     \<Rightarrow> bool" where
  "reports gap decodeElement cursor [] = True"
| "reports gap decodeElement cursor (r # rest) =
     (decodeElement cursor = Inr r
      \<and> reports gap decodeElement (cursor\<lparr>offset := offset cursor + (snd r + gap)\<rparr>) rest)"

text \<open>
  Stand-ins for the absent decoders, to run the framer on a concrete packet: a header
  of two questions and no records, and an element decoder that reports 5 bytes and
  returns, as its element, the offset it was called at.
\<close>

definition two_questions_header :: "u8 list \<Rightarrow> error + Header" where
  "two_questions_header bytes = Inr \<lparr>qdcount = 2, ancount = 0, nscount = 0, arcount = 0\<rparr>"

definition five_byte_element :: "DnsPacketCursor \<Rightarrow> error + (nat \<times> nat)" where
  "five_byte_element cursor = Inr (offset cursor, 5)"

section \<open>Notions used to state the properties\<close>

text \<open>What one round of the loop of \<open>Label\<close> demands of the byte at \<open>idx\<close>.\<close>

definition label_ok_at :: "u8 list \<Rightarrow> nat \<Rightarrow> bool" where
  "label_ok_at bytes idx =
     (isValidLabelCharacter (at bytes idx)
      \<and> \<not> (idx = 0 \<and> isHypen (at bytes idx))
      \<and> \<not> (idx = length bytes - 1 \<and> isHypen (at bytes idx))
      \<and> \<not> (isHypen (if idx > 0 then at bytes (idx - 1) else None)
             \<and> isHypen (at bytes idx) \<and> idx = 3
             \<and> \<not> isInternationalDomain bytes))"

text \<open>
  The literal wire form of a list of labels, without the terminator: for each label one
  length byte, then the label's bytes.
\<close>

definition wire_labels :: "u8 list list \<Rightarrow> u8 list" where
  "wire_labels ls = concat (map (\<lambda>l. of_nat (length l) # l) ls)"

text \<open>
  What decreases with every round of the packet-aware decoder's loop: following the one
  pointer that may be followed, then the bytes of the current view that are left.
\<close>

definition loop_measure :: "u8 list \<Rightarrow> loop_state \<Rightarrow> nat" where
  "loop_measure packet s =
     (if s_encounteredPointer s then 0 else length packet + 1)
     + (length (s_dataView s) - s_offset s)"

section \<open>Label validation\<close>

lemma Label_loop_None_iff:
  "Label_loop bytes idx = None \<longleftrightarrow>
     (\<forall>i. idx \<le> i \<and> i < length bytes \<longrightarrow> label_ok_at bytes i)"
proof (induction bytes idx rule: Label_loop.induct)
  case (1 bytes idx)
  show ?case
  proof (cases "idx < length bytes")
    case False
    then show ?thesis by (subst Label_loop.simps) auto
  next
    case True
    show ?thesis
    proof (cases "label_ok_at bytes idx")
      case False
      then have "Label_loop bytes idx \<noteq> None"
        using True by (subst Label_loop.simps) (auto simp: label_ok_at_def)
      moreover have "\<not> (\<forall>i. idx \<le> i \<and> i < length bytes \<longrightarrow> label_ok_at bytes i)"
        using False True by auto
      ultimately show ?thesis by blast
    next
      case ok: True
      then have "Label_loop bytes idx = Label_loop bytes (idx + 1)"
        using True by (subst Label_loop.simps) (auto simp: label_ok_at_def)
      moreover have "Label_loop bytes (idx + 1) = None \<longleftrightarrow>
          (\<forall>i. idx + 1 \<le> i \<and> i < length bytes \<longrightarrow> label_ok_at bytes i)"
        using "1.IH" True ok by (auto simp: label_ok_at_def)
      moreover have "(\<forall>i. idx + 1 \<le> i \<and> i < length bytes \<longrightarrow> label_ok_at bytes i)
          \<longleftrightarrow> (\<forall>i. idx \<le> i \<and> i < length bytes \<longrightarrow> label_ok_at bytes i)"
        using ok by (metis Suc_eq_plus1 Suc_leI le_neq_implies_less add_leD1 le_refl order.trans le_add1)
      ultimately show ?thesis by simp
    qed
  qed
qed

lemma Label_filter_None_iff:
  "Label_filter l = None \<longleftrightarrow>
     0 < length l \<and> length l \<le> 63 \<and> (\<forall>i < length l. label_ok_at l i)"
proof (cases "length l = 0 \<or> length l > 63")
  case True
  then show ?thesis by (auto simp: Label_filter_def)
next
  case False
  then have "Label_filter l = Label_loop l 0" by (simp add: Label_filter_def)
  moreover have "Label_loop l 0 = None \<longleftrightarrow> (\<forall>i < length l. label_ok_at l i)"
    by (simp add: Label_loop_None_iff)
  ultimately show ?thesis using False by simp
qed

lemma decodeLabel_Inr_iff:
  "decodeLabel l = Inr l' \<longleftrightarrow>
     l' = l \<and> 0 < length l \<and> length l \<le> 63 \<and> (\<forall>i < length l. label_ok_at l i)"
proof (cases "Label_filter l")
  case None
  then show ?thesis using Label_filter_None_iff [of l] by (auto simp: decodeLabel_def)
next
  case (Some issue)
  then show ?thesis using Label_filter_None_iff [of l] by (auto simp: decodeLabel_def)
qed

lemma decodeLabel_Inr_same: "decodeLabel l = Inr l' \<Longrightarrow> l' = l"
  by (simp add: decodeLabel_Inr_iff)

lemma decodeLabel_Inr_length: "decodeLabel l = Inr l' \<Longrightarrow> 0 < length l \<and> length l \<le> 63"
  by (simp add: decodeLabel_Inr_iff)

lemma decodeLabel_too_long: "63 < length l \<Longrightarrow> decodeLabel l = Inl (InvalidLabel (LabelLength (length l)))"
  by (simp add: decodeLabel_def Label_filter_def)

text \<open>
  C7. A label whose 3rd and 4th bytes are both hyphens is accepted only if its first
  two bytes are \<open>x\<close> (120) and \<open>n\<close> (110); and when the label meets the other rules
  (at most 63 bytes, allowed characters only, no hyphen at the end), it is accepted
  exactly when its first two bytes are \<open>xn\<close>. \<open>xn--abc\<close> is accepted, \<open>ab--cd\<close> is
  rejected with the double-hyphen issue of \<open>InvalidLabel\<close>.
\<close>

theorem Label_double_hyphen_needs_xn:
  assumes "3 < length l" and "l ! 2 = 45" and "l ! 3 = 45"
  shows "((\<exists>l'. decodeLabel l = Inr l') \<longrightarrow> l ! 0 = 120 \<and> l ! 1 = 110)
       \<and> (length l \<le> 63 \<and> (\<forall>i < length l. isValidLabelCharacter (at l i)) \<and> last l \<noteq> 45 \<longrightarrow>
            (decodeLabel l = Inr l) = (l ! 0 = 120 \<and> l ! 1 = 110))
       \<and> decodeLabel [120, 110, 45, 45, 97, 98, 99] = Inr [120, 110, 45, 45, 97, 98, 99]
       \<and> decodeLabel [97, 98, 45, 45, 99, 100] = Inl (InvalidLabel DoubleHyphen)"
proof -
  have hy: "isHypen (at l 2)" "isHypen (at l 3)"
    using assms by (simp_all add: isHypen_def at_def AsciiHyphen_def)
  have intl: "isInternationalDomain l = (l ! 0 = 120 \<and> l ! 1 = 110)"
    using assms by (auto simp: isInternationalDomain_def at_or_zero_def at_def)
  have only_if: "l ! 0 = 120 \<and> l ! 1 = 110" if "decodeLabel l = Inr l'" for l'
  proof -
    have "label_ok_at l 3" using that assms by (simp add: decodeLabel_Inr_iff)
    then show ?thesis using hy intl by (simp add: label_ok_at_def)
  qed
  have "if": "decodeLabel l = Inr l"
    if len: "length l \<le> 63" and valid: "\<forall>i < length l. isValidLabelCharacter (at l i)"
      and lst: "last l \<noteq> 45" and xn: "l ! 0 = 120 \<and> l ! 1 = 110"
  proof -
    have ne: "l \<noteq> []" using assms by auto
    have "label_ok_at l i" if i: "i < length l" for i
    proof -
      have v: "isValidLabelCharacter (at l i)" using valid i by simp
      have a: "\<not> (i = 0 \<and> isHypen (at l i))"
        using xn i by (auto simp: isHypen_def at_def AsciiHyphen_def)
      have b: "\<not> (i = length l - 1 \<and> isHypen (at l i))"
        using lst i ne by (auto simp: isHypen_def at_def AsciiHyphen_def last_conv_nth)
      have c: "isInternationalDomain l" using xn intl by simp
      show ?thesis using v a b c by (simp add: label_ok_at_def)
    qed
    then have all: "\<forall>i < length l. label_ok_at l i" by blast
    have pos: "0 < length l" using ne by simp
    show ?thesis unfolding decodeLabel_Inr_iff using all pos len by blast
  qed
  have ex1: "decodeLabel [120, 110, 45, 45, 97, 98, 99] = Inr [120, 110, 45, 45, 97, 98, 99]"
    by code_simp
  have ex2: "decodeLabel [97, 98, 45, 45, 99, 100] = Inl (InvalidLabel DoubleHyphen)"
    by code_simp
  have c1: "(\<exists>l'. decodeLabel l = Inr l') \<longrightarrow> l ! 0 = 120 \<and> l ! 1 = 110"
    using only_if by blast
  have c2: "length l \<le> 63 \<and> (\<forall>i < length l. isValidLabelCharacter (at l i)) \<and> last l \<noteq> 45 \<longrightarrow>
            (decodeLabel l = Inr l) = (l ! 0 = 120 \<and> l ! 1 = 110)"
    using only_if [of l] "if" by blast
  show ?thesis using c1 c2 ex1 ex2 by (intro conjI)
qed


theorem Label_double_hyphen_needs_xn_witness:
  "decodeLabel [120, 110, 45, 45, 97, 98, 99] = Inr [120, 110, 45, 45, 97, 98, 99]
   \<and> \<not> (\<exists>l'. decodeLabel [97, 98, 45, 45, 99, 100] = Inr l')"
  using Label_double_hyphen_needs_xn [of "[120, 110, 45, 45, 97, 98, 99]"]
        Label_double_hyphen_needs_xn [of "[97, 98, 45, 45, 99, 100]"]
  by simp

section \<open>The pointer marker\<close>

lemma nat_and_le: "(b::nat) AND c \<le> b"
proof -
  have "int (b AND c) = int b AND int c" by (simp add: of_nat_and_eq)
  also have "\<dots> \<le> int b" by (rule AND_upper1) simp
  finally show ?thesis by simp
qed

lemma byteIsPointer_ge: "byteIsPointer b \<Longrightarrow> 192 \<le> b"
proof -
  assume "byteIsPointer b"
  then have "b AND 192 = 192" by (simp add: byteIsPointer_def)
  moreover have "b AND 192 \<le> b" by (rule nat_and_le)
  ultimately show ?thesis by simp
qed

lemma and_even: "(m::nat) AND (2 * n) = 2 * ((m div 2) AND n)"
  by (subst and_nat_rec) simp

lemma and_192: "(b::nat) AND 192 = 64 * ((b div 64) AND 3)"
proof -
  have "b AND 192 = 2 * ((b div 2) AND 96)" using and_even [of b 96] by simp
  also have "(b div 2) AND 96 = 2 * ((b div 2 div 2) AND 48)"
    using and_even [of "b div 2" 48] by simp
  also have "(b div 2 div 2) AND 48 = 2 * ((b div 2 div 2 div 2) AND 24)"
    using and_even [of "b div 2 div 2" 24] by simp
  also have "(b div 2 div 2 div 2) AND 24 = 2 * ((b div 2 div 2 div 2 div 2) AND 12)"
    using and_even [of "b div 2 div 2 div 2" 12] by simp
  also have "(b div 2 div 2 div 2 div 2) AND 12 = 2 * ((b div 2 div 2 div 2 div 2 div 2) AND 6)"
    using and_even [of "b div 2 div 2 div 2 div 2" 6] by simp
  also have "(b div 2 div 2 div 2 div 2 div 2) AND 6
      = 2 * ((b div 2 div 2 div 2 div 2 div 2 div 2) AND 3)"
    using and_even [of "b div 2 div 2 div 2 div 2 div 2" 3] by simp
  also have "b div 2 div 2 div 2 div 2 div 2 div 2 = b div 64"
    by (simp add: div_mult2_eq [symmetric])
  finally show ?thesis by simp
qed

lemma and_3: "(c::nat) < 4 \<Longrightarrow> c AND 3 = c"
proof -
  assume "c < 4"
  then have "c = 0 \<or> c = 1 \<or> c = 2 \<or> c = 3" by arith
  then show ?thesis by auto
qed

lemma byteIsPointer_iff: "b < 256 \<Longrightarrow> byteIsPointer b \<longleftrightarrow> 192 \<le> b"
proof -
  assume b: "b < 256"
  then have "b div 64 < 4" by arith
  then have "b AND 192 = 64 * (b div 64)" by (simp add: and_192 and_3)
  then show ?thesis using b unfolding byteIsPointer_def by (simp) arith
qed

section \<open>The standalone decoder\<close>

lemma getUint8_Inr_iff:
  "getUint8 bytes off = Inr b \<longleftrightarrow> off < length bytes \<and> b = unat (bytes ! off)"
  by (auto simp: getUint8_def)

lemma getUint8_Inl_iff:
  "getUint8 bytes off = Inl e \<longleftrightarrow> \<not> off < length bytes \<and> e = BufferUnderrun off"
  by (auto simp: getUint8_def)

lemma getUint8_lt_256: "getUint8 bytes off = Inr b \<Longrightarrow> b < 256"
proof -
  assume "getUint8 bytes off = Inr b"
  then have "b = unat (bytes ! off)" by (simp add: getUint8_Inr_iff)
  moreover have "unat (bytes ! off) < 2 ^ LENGTH(8)" by (rule unsigned_less)
  ultimately show ?thesis by simp
qed

lemma subarray_eq_take_drop:
  "subarray bytes b e = take (e - b) (drop b bytes)"
  by (simp add: subarray_def drop_take)

lemma length_subarray:
  "length (subarray bytes b e) = min e (length bytes) - b"
  by (simp add: subarray_def)

lemma wire_labels_Nil [simp]: "wire_labels [] = []"
  by (simp add: wire_labels_def)

lemma wire_labels_Cons [simp]:
  "wire_labels (l # ls) = of_nat (length l) # l @ wire_labels ls"
  by (simp add: wire_labels_def)

lemma wire_labels_append [simp]:
  "wire_labels (xs @ ys) = wire_labels xs @ wire_labels ys"
  by (simp add: wire_labels_def)

lemma length_wire_labels:
  "length (wire_labels ls) = sum_list (map (\<lambda>l. length l + 1) ls)"
  by (induction ls) simp_all

lemma length_wire_labels':
  "length (wire_labels ls) = length ls + sum_list (map length ls)"
  by (induction ls) simp_all

text \<open>One labelled chunk of a buffer: the length byte at \<open>off\<close>, then \<open>len\<close> bytes.\<close>

lemma subarray_chunk:
  assumes "off < length bytes" and "off + 1 + len \<le> off'" and "off' \<le> length bytes"
  shows "subarray bytes off off' =
           bytes ! off # subarray bytes (off + 1) (off + 1 + len) @ subarray bytes (off + (len + 1)) off'"
proof -
  define xs where "xs = take off' bytes"
  have lx: "length xs = off'" using assms(3) by (simp add: xs_def)
  have offx: "off < length xs" using assms(2) lx by simp
  have a: "drop off xs = xs ! off # drop (Suc off) xs"
    using offx by (simp add: Cons_nth_drop_Suc)
  have b: "xs ! off = bytes ! off"
    using assms(2) by (simp add: xs_def)
  have c: "drop (Suc off) xs = take len (drop (Suc off) xs) @ drop len (drop (Suc off) xs)"
    by (rule append_take_drop_id [symmetric])
  have d: "take len (drop (Suc off) xs) = drop (Suc off) (take (Suc off + len) xs)"
    by (simp add: drop_take)
  have e: "take (Suc off + len) xs = take (Suc off + len) bytes"
    using assms(2) by (simp add: xs_def min_def)
  have f: "drop len (drop (Suc off) xs) = drop (off + (len + 1)) xs"
    by (simp add: add.commute)
  have "drop off xs = bytes ! off # drop (Suc off) (take (Suc off + len) bytes) @ drop (off + (len + 1)) xs"
    using a b c d e f by metis
  then show ?thesis by (simp add: subarray_def xs_def)
qed

lemma NameFromUint8Array_loop_Inr:
  "NameFromUint8Array_loop bytes off ns acc = Inr (ls, off') \<Longrightarrow>
     \<exists>new. ls = acc @ new \<and> off' = off + length (wire_labels new)
       \<and> off' < length bytes \<and> bytes ! off' = 0
       \<and> subarray bytes off off' = wire_labels new
       \<and> (\<forall>l \<in> set new. decodeLabel l = Inr l)"
proof (induction bytes off ns acc arbitrary: ls off' rule: NameFromUint8Array_loop.induct)
  case (1 bytes off ns acc)
  from "1.prems" obtain len where g: "getUint8 bytes off = Inr len"
    by (subst (asm) NameFromUint8Array_loop.simps) (auto split: sum.splits)
  then have off: "off < length bytes" and len: "len = unat (bytes ! off)"
    by (simp_all add: getUint8_Inr_iff)
  show ?case
  proof (cases "len = 0")
    case True
    then have "ls = acc" "off' = off"
      using "1.prems" g by (subst (asm) NameFromUint8Array_loop.simps, simp)+
    moreover have "bytes ! off = 0" using True len by (simp add: unat_eq_0)
    ultimately show ?thesis using off by (simp add: subarray_def)
  next
    case False
    define label where "label = subarray bytes (off + 1) (off + 1 + len)"
    from "1.prems" g False have fits: "\<not> off + 1 + len > length bytes"
      by (subst (asm) NameFromUint8Array_loop.simps) (auto split: if_splits)
    from "1.prems" g False fits obtain label' where d: "decodeLabel label = Inr label'"
      unfolding label_def
      by (subst (asm) NameFromUint8Array_loop.simps) (auto split: sum.splits)
    then have same: "label' = label" by (rule decodeLabel_Inr_same)
    from "1.prems" g False fits d have small: "\<not> ns + length label' > 255"
      unfolding label_def
      by (subst (asm) NameFromUint8Array_loop.simps) (auto split: if_splits)
    from "1.prems" g False fits d small
    have rec: "NameFromUint8Array_loop bytes (off + (len + 1)) (ns + length label') (acc @ [label'])
        = Inr (ls, off')"
      unfolding label_def
      by (subst (asm) NameFromUint8Array_loop.simps) simp
    have "\<exists>new. ls = (acc @ [label']) @ new \<and> off' = off + (len + 1) + length (wire_labels new)
       \<and> off' < length bytes \<and> bytes ! off' = 0
       \<and> subarray bytes (off + (len + 1)) off' = wire_labels new
       \<and> (\<forall>l \<in> set new. decodeLabel l = Inr l)"
      using "1.IH" [OF g False fits d [unfolded label_def] small rec] .
    then obtain new where new: "ls = (acc @ [label']) @ new"
        "off' = off + (len + 1) + length (wire_labels new)"
        "off' < length bytes" "bytes ! off' = 0"
        "subarray bytes (off + (len + 1)) off' = wire_labels new"
        "\<forall>l \<in> set new. decodeLabel l = Inr l"
      by blast
    have ll: "length label = len"
      using fits by (simp add: label_def length_subarray)
    have lenb: "of_nat (length label) = bytes ! off"
      using ll len by simp
    have chunk: "subarray bytes off off' = bytes ! off # label @ wire_labels new"
      using subarray_chunk [of off bytes len off'] off new(2,3,5) by (simp add: label_def)
    have "ls = acc @ (label # new)" using new(1) same by simp
    moreover have "off' = off + length (wire_labels (label # new))"
      using new(2) ll by simp
    moreover have "subarray bytes off off' = wire_labels (label # new)"
      using chunk lenb by simp
    moreover have "\<forall>l \<in> set (label # new). decodeLabel l = Inr l"
      using new(6) d same by simp
    ultimately show ?thesis using new(3,4) by blast
  qed
qed

section \<open>The schema Name\<close>

lemma Array_Label_Inr:
  "Array_Label ls = Inr ls' \<Longrightarrow> ls' = ls \<and> (\<forall>l \<in> set ls. decodeLabel l = Inr l)"
proof (induction ls arbitrary: ls')
  case Nil
  then show ?case by simp
next
  case (Cons l ls)
  from Cons.prems obtain l1 where d: "decodeLabel l = Inr l1"
    by (auto split: sum.splits)
  from Cons.prems d obtain ls1 where r: "Array_Label ls = Inr ls1"
    by (auto split: sum.splits)
  have "l1 = l" using d by (rule decodeLabel_Inr_same)
  moreover have "ls1 = ls \<and> (\<forall>l \<in> set ls. decodeLabel l = Inr l)" using Cons.IH r by blast
  moreover have "ls' = l1 # ls1" using Cons.prems d r by simp
  ultimately show ?case using d by simp
qed

lemma Array_Label_valid:
  "(\<forall>l \<in> set ls. decodeLabel l = Inr l) \<Longrightarrow> Array_Label ls = Inr ls"
  by (induction ls) simp_all

lemma Name_labels_filter_None_iff:
  "Name_labels_filter ls = None \<longleftrightarrow>
     ls \<noteq> [] \<and> length ls + sum_list (map length ls) + 1 \<le> 255"
  by (cases ls) (auto simp: Name_labels_filter_def Let_def)

lemma Name_schema_Inr_iff:
  "Name_schema name = Inr name' \<longleftrightarrow>
     name' = name \<and> (\<forall>l \<in> set (labels name). decodeLabel l = Inr l)
     \<and> labels name \<noteq> [] \<and> length (labels name) + sum_list (map length (labels name)) + 1 \<le> 255
     \<and> 1 \<le> encodedByteLength name \<and> encodedByteLength name \<le> 255"
proof
  assume a: "Name_schema name = Inr name'"
  then obtain ls where al: "Array_Label (labels name) = Inr ls"
    by (auto simp: Name_schema_def split: sum.splits)
  then have ls: "ls = labels name" and v: "\<forall>l \<in> set (labels name). decodeLabel l = Inr l"
    using Array_Label_Inr by blast+
  from a al have f: "Name_labels_filter ls = None"
    by (auto simp: Name_schema_def split: option.splits)
  from a al f have r: "1 \<le> encodedByteLength name \<and> encodedByteLength name \<le> 255"
    by (auto simp: Name_schema_def split: if_splits)
  from a al f r have "name' = \<lparr>labels = ls, encodedByteLength = encodedByteLength name\<rparr>"
    by (simp add: Name_schema_def)
  then have "name' = name" using ls by simp
  then show "name' = name \<and> (\<forall>l \<in> set (labels name). decodeLabel l = Inr l)
     \<and> labels name \<noteq> [] \<and> length (labels name) + sum_list (map length (labels name)) + 1 \<le> 255
     \<and> 1 \<le> encodedByteLength name \<and> encodedByteLength name \<le> 255"
    using v f r ls by (simp add: Name_labels_filter_None_iff)
next
  assume b: "name' = name \<and> (\<forall>l \<in> set (labels name). decodeLabel l = Inr l)
     \<and> labels name \<noteq> [] \<and> length (labels name) + sum_list (map length (labels name)) + 1 \<le> 255
     \<and> 1 \<le> encodedByteLength name \<and> encodedByteLength name \<le> 255"
  then have al: "Array_Label (labels name) = Inr (labels name)" by (simp add: Array_Label_valid)
  have f: "Name_labels_filter (labels name) = None"
    using b by (simp add: Name_labels_filter_None_iff)
  show "Name_schema name = Inr name'"
    using b al f by (simp add: Name_schema_def)
qed

lemma decodeNameFromUint8Array_Inr:
  assumes "decodeNameFromUint8Array bytes = Inr name"
  shows "NameFromUint8Array_loop bytes 0 0 [] = Inr (labels name, encodedByteLength name)"
    and "Name_schema name = Inr name" and "2 \<le> length bytes"
proof -
  from assms obtain n where n: "NameFromUint8Array_decode bytes = Inr n" and s: "Name_schema n = Inr name"
    by (auto simp: decodeNameFromUint8Array_def split: sum.splits)
  from s have eq: "name = n" by (simp add: Name_schema_Inr_iff)
  from n show "2 \<le> length bytes"
    by (auto simp: NameFromUint8Array_decode_def split: if_splits)
  from n have "\<exists>ls off. NameFromUint8Array_loop bytes 0 0 [] = Inr (ls, off)
      \<and> n = \<lparr>labels = ls, encodedByteLength = off\<rparr>"
    by (auto simp: NameFromUint8Array_decode_def split: if_splits sum.splits)
  then show "NameFromUint8Array_loop bytes 0 0 [] = Inr (labels name, encodedByteLength name)"
    using eq by auto
  show "Name_schema name = Inr name" using s eq by simp
qed

section \<open>Results of the decoders\<close>

text \<open>
  C3, as stated, fails: for the three bytes \<open>01 61 00\<close> the decoder reports 2, the
  offset of the terminator itself, while the byte following the terminator is at
  offset 3, the length of the buffer.
\<close>

theorem decodeNameFromUint8Array_length_counterexample:
  "decodeNameFromUint8Array [1, 97, 0] = Inr \<lparr>labels = [[97]], encodedByteLength = 2\<rparr>
   \<and> [1, 97, 0 :: u8] ! 2 = 0 \<and> length [1, 97, 0 :: u8] = 3"
  by code_simp

text \<open>
  C3, amended. On every buffer on which \<open>decodeNameFromUint8Array\<close> succeeds, the
  \<open>encodedByteLength\<close> it returns is the offset of the zero terminator byte: the
  bytes before it are exactly the literal wire form of the labels, so it equals the
  literal encoding length without the terminator (one length byte and the label's bytes
  for each label).
\<close>

theorem decodeNameFromUint8Array_length:
  assumes "decodeNameFromUint8Array bytes = Inr name"
  shows "encodedByteLength name < length bytes
       \<and> bytes ! encodedByteLength name = 0
       \<and> take (encodedByteLength name) bytes = wire_labels (labels name)
       \<and> encodedByteLength name = sum_list (map (\<lambda>l. length l + 1) (labels name))"
proof -
  have run: "NameFromUint8Array_loop bytes 0 0 [] = Inr (labels name, encodedByteLength name)"
    using assms by (rule decodeNameFromUint8Array_Inr)
  from NameFromUint8Array_loop_Inr [OF run]
  obtain new where new: "labels name = [] @ new"
      "encodedByteLength name = 0 + length (wire_labels new)"
      "encodedByteLength name < length bytes" "bytes ! encodedByteLength name = 0"
      "subarray bytes 0 (encodedByteLength name) = wire_labels new"
    by blast
  have eq: "new = labels name" using new(1) by simp
  have "take (encodedByteLength name) bytes = wire_labels (labels name)"
    using new(5) eq by (simp add: subarray_def)
  moreover have "encodedByteLength name = sum_list (map (\<lambda>l. length l + 1) (labels name))"
    using new(2) eq by (simp add: length_wire_labels)
  ultimately show ?thesis using new(3,4) by blast
qed

theorem decodeNameFromUint8Array_length_witness:
  "encodedByteLength \<lparr>labels = [[97]], encodedByteLength = 2\<rparr> < length [1, 97, 0 :: u8]
   \<and> [1, 97, 0 :: u8] ! encodedByteLength \<lparr>labels = [[97]], encodedByteLength = 2\<rparr> = 0
   \<and> take 2 [1, 97, 0 :: u8] = wire_labels [[97]]"
proof -
  have h: "decodeNameFromUint8Array [1, 97, 0] = Inr \<lparr>labels = [[97]], encodedByteLength = 2\<rparr>"
    by code_simp
  from decodeNameFromUint8Array_length [OF h] show ?thesis by simp
qed

lemma decodeNameFromDnsPacketCursor_Inr:
  "decodeNameFromDnsPacketCursor cursor = Some (Inr name) \<Longrightarrow> Name_schema name = Inr name"
proof -
  assume a: "decodeNameFromDnsPacketCursor cursor = Some (Inr name)"
  then obtain n where "Name_schema n = Inr name"
    by (auto simp: decodeNameFromDnsPacketCursor_def split: option.splits sum.splits)
  then show ?thesis by (simp add: Name_schema_Inr_iff)
qed

lemma NameFromUint8Array_loop_terminator:
  "off < length bytes \<Longrightarrow> bytes ! off = 0 \<Longrightarrow>
     NameFromUint8Array_loop bytes off ns acc = Inr (acc, off)"
  by (subst NameFromUint8Array_loop.simps) (simp add: getUint8_def)

text \<open>
  C9. A Name returned by either decoder has at least one label and an
  \<open>encodedByteLength\<close> between 1 and 255; a buffer whose first byte is the zero
  terminator (the root name) is refused: as too short when it has fewer than two bytes,
  by the size filter of the schema \<open>Name\<close> otherwise.
\<close>

theorem decoded_Name_invariant:
  "(decodeNameFromUint8Array bytes = Inr name \<longrightarrow>
      labels name \<noteq> [] \<and> 1 \<le> encodedByteLength name \<and> encodedByteLength name \<le> 255)
   \<and> (decodeNameFromDnsPacketCursor cursor = Some (Inr name') \<longrightarrow>
      labels name' \<noteq> [] \<and> 1 \<le> encodedByteLength name' \<and> encodedByteLength name' \<le> 255)
   \<and> (root \<noteq> [] \<and> root ! 0 = 0 \<longrightarrow>
      decodeNameFromUint8Array root =
        Inl (if length root < 2 then BufferTooShort (length root) else NameSizeIssue 0))"
proof (intro conjI impI)
  assume "decodeNameFromUint8Array bytes = Inr name"
  then have s: "Name_schema name = Inr name" by (rule decodeNameFromUint8Array_Inr)
  then show "labels name \<noteq> []" "1 \<le> encodedByteLength name" "encodedByteLength name \<le> 255"
    by (simp_all add: Name_schema_Inr_iff)
next
  assume "decodeNameFromDnsPacketCursor cursor = Some (Inr name')"
  then have s: "Name_schema name' = Inr name'" by (rule decodeNameFromDnsPacketCursor_Inr)
  then show "labels name' \<noteq> []" "1 \<le> encodedByteLength name'" "encodedByteLength name' \<le> 255"
    by (simp_all add: Name_schema_Inr_iff)
next
  assume r: "root \<noteq> [] \<and> root ! 0 = 0"
  show "decodeNameFromUint8Array root =
        Inl (if length root < 2 then BufferTooShort (length root) else NameSizeIssue 0)"
  proof (cases "length root < 2")
    case True
    then show ?thesis
      by (simp add: decodeNameFromUint8Array_def NameFromUint8Array_decode_def)
  next
    case False
    have "NameFromUint8Array_loop root 0 0 [] = Inr ([], 0)"
      using r by (simp add: NameFromUint8Array_loop_terminator)
    then have "NameFromUint8Array_decode root = Inr \<lparr>labels = [], encodedByteLength = 0\<rparr>"
      using False by (simp add: NameFromUint8Array_decode_def)
    moreover have "Name_schema \<lparr>labels = [], encodedByteLength = 0\<rparr> = Inl (NameSizeIssue 0)"
      by (simp add: Name_schema_def Name_labels_filter_def)
    ultimately show ?thesis using False by (simp add: decodeNameFromUint8Array_def)
  qed
qed

theorem decoded_Name_invariant_witness:
  "labels \<lparr>labels = [[97]], encodedByteLength = 2\<rparr> \<noteq> []
   \<and> decodeNameFromUint8Array [1, 97, 0] = Inr \<lparr>labels = [[97]], encodedByteLength = 2\<rparr>
   \<and> decodeNameFromDnsPacketCursor \<lparr>uint8Array = [1, 97, 0], offset = 0\<rparr>
       = Some (Inr \<lparr>labels = [[97]], encodedByteLength = 2\<rparr>)
   \<and> decodeNameFromUint8Array [0, 0] = Inl (NameSizeIssue 0)"
proof -
  have h1: "decodeNameFromUint8Array [1, 97, 0] = Inr \<lparr>labels = [[97]], encodedByteLength = 2\<rparr>"
    by code_simp
  have h2: "decodeNameFromDnsPacketCursor \<lparr>uint8Array = [1, 97, 0], offset = 0\<rparr>
       = Some (Inr \<lparr>labels = [[97]], encodedByteLength = 2\<rparr>)"
    by code_simp
  from decoded_Name_invariant [of "[1, 97, 0]" "\<lparr>labels = [[97]], encodedByteLength = 2\<rparr>"
      "\<lparr>uint8Array = [1, 97, 0], offset = 0\<rparr>" "\<lparr>labels = [[97]], encodedByteLength = 2\<rparr>" "[0, 0]"]
    h1 h2
  show ?thesis by simp
qed

section \<open>The literal wire form: decoding and encoding\<close>

lemma unat_label_length: "n \<le> 63 \<Longrightarrow> unat (of_nat n :: u8) = n"
  by (simp add: unat_of_nat)

text \<open>One round of the loop on a buffer that holds a valid label at \<open>length pre\<close>.\<close>

lemma NameFromUint8Array_loop_label:
  assumes "decodeLabel l = Inr l" and "ns + length l \<le> 255"
  shows "NameFromUint8Array_loop (pre @ of_nat (length l) # l @ rest) (length pre) ns acc =
         NameFromUint8Array_loop (pre @ of_nat (length l) # l @ rest)
           (length pre + (length l + 1)) (ns + length l) (acc @ [l])"
proof -
  define bytes where "bytes = pre @ of_nat (length l) # l @ rest"
  have ll: "0 < length l" "length l \<le> 63" using assms(1) decodeLabel_Inr_length by blast+
  have g: "getUint8 bytes (length pre) = Inr (length l)"
    using ll by (simp add: getUint8_def bytes_def unat_label_length)
  have fits: "\<not> length pre + 1 + length l > length bytes" by (simp add: bytes_def)
  have sub: "subarray bytes (length pre + 1) (length pre + 1 + length l) = l"
    by (simp add: subarray_def bytes_def)
  show ?thesis
    unfolding bytes_def [symmetric]
    using g fits sub assms ll by (subst NameFromUint8Array_loop.simps) simp
qed

lemma NameFromUint8Array_loop_wire:
  assumes "\<forall>l \<in> set ls. decodeLabel l = Inr l" and "ns + sum_list (map length ls) \<le> 255"
  shows "NameFromUint8Array_loop (pre @ wire_labels ls @ rest) (length pre) ns acc =
         NameFromUint8Array_loop (pre @ wire_labels ls @ rest)
           (length pre + length (wire_labels ls)) (ns + sum_list (map length ls)) (acc @ ls)"
  using assms
proof (induction ls arbitrary: pre ns acc)
  case Nil
  then show ?case by simp
next
  case (Cons l ls)
  have v: "decodeLabel l = Inr l" and small: "ns + length l \<le> 255"
    using Cons.prems by simp_all
  define pre' where "pre' = pre @ of_nat (length l) # l"
  have bytes: "pre @ wire_labels (l # ls) @ rest = pre' @ wire_labels ls @ rest"
    by (simp add: pre'_def)
  have lp: "length pre' = length pre + (length l + 1)" by (simp add: pre'_def)
  have "NameFromUint8Array_loop (pre @ wire_labels (l # ls) @ rest) (length pre) ns acc =
        NameFromUint8Array_loop (pre @ wire_labels (l # ls) @ rest)
          (length pre + (length l + 1)) (ns + length l) (acc @ [l])"
    using NameFromUint8Array_loop_label [OF v small, of pre "wire_labels ls @ rest" acc] by simp
  also have "\<dots> = NameFromUint8Array_loop (pre' @ wire_labels ls @ rest)
          (length pre') (ns + length l) (acc @ [l])"
    by (simp add: pre'_def)
  also have "\<dots> = NameFromUint8Array_loop (pre' @ wire_labels ls @ rest)
          (length pre' + length (wire_labels ls)) (ns + length l + sum_list (map length ls))
          ((acc @ [l]) @ ls)"
    using Cons.IH [of "ns + length l" pre' "acc @ [l]"] Cons.prems by (simp add: add.assoc)
  finally show ?case by (simp add: pre'_def add.assoc)
qed

lemma encode_size_loop_valid:
  assumes "\<forall>l \<in> set ls. decodeLabel l = Inr l" and "n + sum_list (map length ls) \<le> 255"
  shows "encode_size_loop ls n = Inr (n + sum_list (map length ls))"
  using assms
proof (induction ls arbitrary: n)
  case Nil
  then show ?case by simp
next
  case (Cons l ls)
  have "encodeLabelFromUnknown l = Inr l"
    using Cons.prems(1) by (simp add: encodeLabelFromUnknown_def decodeLabel_def split: option.splits)
  moreover have "encode_size_loop ls (n + length l) = Inr (n + length l + sum_list (map length ls))"
    using Cons.IH [of "n + length l"] Cons.prems by (simp add: add.assoc)
  ultimately show ?case using Cons.prems(2) by (simp add: add.assoc)
qed

lemma encode_write_loop_wire:
  assumes "w + length (wire_labels ls) \<le> length out"
  shows "encode_write_loop ls out w =
           Inr (take w out @ wire_labels ls @ drop (w + length (wire_labels ls)) out,
                w + length (wire_labels ls))"
  using assms
proof (induction ls arbitrary: out w)
  case Nil
  then show ?case by simp
next
  case (Cons l ls)
  define out1 where "out1 = out[w := of_nat (length l)]"
  define out2 where "out2 = take (w + 1) out1 @ l @ drop (w + 1 + length l) out1"
  have w: "w < length out" and fit: "w + 1 + length l \<le> length out"
    using Cons.prems by simp_all
  have s1: "setUint8 out w (length l) = Inr out1" using w by (simp add: setUint8_def out1_def)
  have s2: "uint8ArraySet out1 l (w + 1) = Inr out2"
    using fit by (simp add: uint8ArraySet_def out1_def out2_def)
  have t1: "take (w + 1) out1 = take w out @ [of_nat (length l)]"
    using w by (simp add: out1_def take_Suc_conv_app_nth)
  have d1: "drop (w + 1 + length l) out1 = drop (w + 1 + length l) out"
    by (simp add: out1_def)
  have o2: "out2 = (take w out @ of_nat (length l) # l) @ drop (w + 1 + length l) out"
    using t1 d1 by (simp add: out2_def)
  have l2: "length (take w out @ of_nat (length l) # l) = w + 1 + length l" using w by simp
  have len2: "length out2 = length out" using fit w by (simp add: o2)
  have tk: "take (w + 1 + length l) out2 = take w out @ of_nat (length l) # l"
    using l2 by (simp add: o2)
  have dr: "drop (w + 1 + length l + k) out2 = drop (w + 1 + length l + k) out" for k
  proof -
    have "drop (w + 1 + length l + k) out2 = drop k (drop (w + 1 + length l) out2)"
      by (simp add: add.commute)
    also have "drop (w + 1 + length l) out2 = drop (w + 1 + length l) out"
      using l2 by (simp add: o2)
    finally show ?thesis by (simp add: add.commute)
  qed
  have "encode_write_loop (l # ls) out w = encode_write_loop ls out2 (w + 1 + length l)"
    using s1 s2 by simp
  also have "\<dots> = Inr (take (w + 1 + length l) out2 @ wire_labels ls
        @ drop (w + 1 + length l + length (wire_labels ls)) out2,
      w + 1 + length l + length (wire_labels ls))"
    using Cons.IH [of "w + 1 + length l" out2] Cons.prems len2 by (simp add: add.assoc)
  finally show ?case using tk dr [of "length (wire_labels ls)"] by (simp add: add.assoc)
qed

lemma NameFromUint8Array_encode_valid:
  assumes "\<forall>l \<in> set (labels name). decodeLabel l = Inr l" and "labels name \<noteq> []"
    and "length (labels name) + sum_list (map length (labels name)) + 1 \<le> 255"
  shows "NameFromUint8Array_encode name = Inr (wire_labels (labels name) @ [0])"
proof -
  define ls where "ls = labels name"
  define nameSize where "nameSize = length ls + 1 + sum_list (map length ls)"
  have size: "encode_size_loop ls (length ls + 1) = Inr nameSize"
    using encode_size_loop_valid [of ls "length ls + 1"] assms(1,3)
    by (simp add: ls_def nameSize_def)
  have ns: "nameSize = length (wire_labels ls) + 1"
    by (simp add: nameSize_def length_wire_labels')
  have dr: "drop (length (wire_labels ls)) (replicate nameSize (0::u8)) = [0]"
    by (simp only: ns drop_replicate) simp
  have "0 + length (wire_labels ls) \<le> length (replicate nameSize (0::u8))"
    by (simp only: ns length_replicate)
  from encode_write_loop_wire [OF this]
  have wr: "encode_write_loop ls (replicate nameSize 0) 0 =
      Inr (wire_labels ls @ [0], length (wire_labels ls))"
    using dr by simp
  have last: "setUint8 (wire_labels ls @ [0]) (length (wire_labels ls)) 0 = Inr (wire_labels ls @ [0])"
    by (simp add: setUint8_def)
  show ?thesis
    using assms(2) size wr last by (simp add: NameFromUint8Array_encode_def ls_def [symmetric])
qed

section \<open>Round trip\<close>

lemma length_le_sum_length:
  "\<forall>l \<in> set ls. 0 < length l \<Longrightarrow> length ls \<le> sum_list (map length ls)"
proof (induction ls)
  case Nil
  then show ?case by simp
next
  case (Cons a ls)
  have "1 \<le> length a" using Cons.prems by (simp add: Suc_le_eq)
  moreover have "length ls \<le> sum_list (map length ls)" using Cons by simp
  ultimately show ?case by simp
qed

text \<open>
  C4, as stated, fails: the Name with the one label \<open>a\<close> and \<open>encodedByteLength\<close> 3
  (the length of its encoded form \<open>01 61 00\<close>) encodes to these three bytes, and
  decoding them returns \<open>encodedByteLength\<close> 2.
\<close>

theorem Name_roundtrip_counterexample:
  "encodeNameFromUint8Array \<lparr>labels = [[97]], encodedByteLength = 3\<rparr> = Inr [1, 97, 0]
   \<and> decodeNameFromUint8Array [1, 97, 0] = Inr \<lparr>labels = [[97]], encodedByteLength = 2\<rparr>"
  by code_simp

text \<open>
  C4, amended. For every Name \<open>N\<close> that the schema \<open>Name\<close> accepts (valid labels, at
  least one, at most 255 encoded bytes), \<open>encodeNameFromUint8Array\<close> returns the literal
  wire form of its labels followed by the zero terminator, and decoding these bytes with
  \<open>decodeNameFromUint8Array\<close> returns \<open>N\<close> with \<open>encodedByteLength\<close> set to the
  encoded length minus one (the terminator is not counted); the result equals \<open>N\<close>
  exactly when \<open>N\<close>'s own \<open>encodedByteLength\<close> has that value.
\<close>

theorem Name_roundtrip:
  assumes "Name_schema name = Inr name"
  shows "encodeNameFromUint8Array name = Inr (wire_labels (labels name) @ [0])
       \<and> decodeNameFromUint8Array (wire_labels (labels name) @ [0]) =
           Inr (name\<lparr>encodedByteLength := length (wire_labels (labels name) @ [0]) - 1\<rparr>)
       \<and> (decodeNameFromUint8Array (wire_labels (labels name) @ [0]) = Inr name) =
           (encodedByteLength name = length (wire_labels (labels name)))"
proof -
  define ls where "ls = labels name"
  define bytes where "bytes = wire_labels ls @ [0]"
  have v: "\<forall>l \<in> set ls. decodeLabel l = Inr l" and ne: "ls \<noteq> []"
    and size: "length ls + sum_list (map length ls) + 1 \<le> 255"
    using assms by (simp_all add: Name_schema_Inr_iff ls_def)
  have enc: "encodeNameFromUint8Array name = Inr bytes"
    using assms NameFromUint8Array_encode_valid [of name] v ne size
    by (simp add: encodeNameFromUint8Array_def ls_def bytes_def)
  have wl: "length (wire_labels ls) = length ls + sum_list (map length ls)"
    by (rule length_wire_labels')
  have pos: "1 \<le> length ls" using ne by (cases ls) simp_all
  have "\<forall>l \<in> set ls. 0 < length l" using v decodeLabel_Inr_length by blast
  then have "length ls \<le> sum_list (map length ls)"
    by (rule length_le_sum_length)
  then have "2 \<le> length (wire_labels ls) + 1" using pos wl by linarith
  then have two: "2 \<le> length bytes" by (simp add: bytes_def)
  have small: "0 + sum_list (map length ls) \<le> 255" using size by simp
  have "NameFromUint8Array_loop bytes 0 0 [] =
        NameFromUint8Array_loop bytes (length (wire_labels ls)) (sum_list (map length ls)) ls"
    using NameFromUint8Array_loop_wire [OF v small, of "[]" "[0]" "[]"] by (simp add: bytes_def)
  also have "\<dots> = Inr (ls, length (wire_labels ls))"
    by (rule NameFromUint8Array_loop_terminator) (simp_all add: bytes_def)
  finally have dec: "NameFromUint8Array_decode bytes =
      Inr \<lparr>labels = ls, encodedByteLength = length (wire_labels ls)\<rparr>"
    using two by (simp add: NameFromUint8Array_decode_def)
  have "Name_schema \<lparr>labels = ls, encodedByteLength = length (wire_labels ls)\<rparr> =
      Inr \<lparr>labels = ls, encodedByteLength = length (wire_labels ls)\<rparr>"
    using v ne size wl pos by (simp add: Name_schema_Inr_iff)
  then have res: "decodeNameFromUint8Array bytes =
      Inr \<lparr>labels = ls, encodedByteLength = length (wire_labels ls)\<rparr>"
    using dec by (simp add: decodeNameFromUint8Array_def)
  have upd: "name\<lparr>encodedByteLength := length bytes - 1\<rparr> =
      \<lparr>labels = ls, encodedByteLength = length (wire_labels ls)\<rparr>"
    by (simp add: ls_def bytes_def)
  have iff: "(\<lparr>labels = ls, encodedByteLength = length (wire_labels ls)\<rparr> = name) =
      (encodedByteLength name = length (wire_labels ls))"
    by (cases name) (auto simp: ls_def)
  show ?thesis
    using enc res upd iff unfolding bytes_def ls_def by simp
qed

theorem Name_roundtrip_witness:
  "encodeNameFromUint8Array \<lparr>labels = [[97]], encodedByteLength = 2\<rparr> = Inr [1, 97, 0]
   \<and> decodeNameFromUint8Array [1, 97, 0] = Inr \<lparr>labels = [[97]], encodedByteLength = 2\<rparr>"
proof -
  have h: "Name_schema \<lparr>labels = [[97]], encodedByteLength = 2\<rparr>
      = Inr \<lparr>labels = [[97]], encodedByteLength = 2\<rparr>"
    by code_simp
  from Name_roundtrip [OF h] show ?thesis by simp
qed

section \<open>The size limit of a name\<close>

lemma NameFromDnsPacketCursor_loop_leave:
  "NameFromDnsPacketCursor_step packet window s = Inl result \<Longrightarrow>
     NameFromDnsPacketCursor_loop packet window s = Some result"
  by (subst NameFromDnsPacketCursor_loop.simps) simp

lemma NameFromDnsPacketCursor_loop_continue:
  "NameFromDnsPacketCursor_step packet window s = Inr s' \<Longrightarrow>
     NameFromDnsPacketCursor_loop packet window s = NameFromDnsPacketCursor_loop packet window s'"
  by (subst NameFromDnsPacketCursor_loop.simps) simp

lemma decodeNameFromUint8Array_loop_Inl:
  "2 \<le> length bytes \<Longrightarrow> NameFromUint8Array_loop bytes 0 0 [] = Inl e \<Longrightarrow>
     decodeNameFromUint8Array bytes = Inl e"
  by (simp add: decodeNameFromUint8Array_def NameFromUint8Array_decode_def)

lemma NameFromUint8Array_loop_too_long:
  assumes "getUint8 bytes off = Inr len" and "len \<noteq> 0" and "off + 1 + len \<le> length bytes"
    and "decodeLabel (subarray bytes (off + 1) (off + 1 + len)) = Inr label"
    and "ns + length label > 255"
  shows "NameFromUint8Array_loop bytes off ns acc = Inl NameTooLong"
  using assms by (subst NameFromUint8Array_loop.simps) simp

text \<open>
  The standalone decoder fails with \<open>NameTooLong\<close> at the first label that takes the
  running total of label bytes above 255, whatever follows it in the buffer.
\<close>

lemma standalone_NameTooLong_at_crossing:
  assumes "\<forall>l \<in> set ls. decodeLabel l = Inr l" and "decodeLabel l' = Inr l'"
    and "sum_list (map length ls) \<le> 255" and "sum_list (map length ls) + length l' > 255"
  shows "decodeNameFromUint8Array (wire_labels ls @ of_nat (length l') # l' @ rest)
          = Inl NameTooLong"
proof -
  define bytes where "bytes = wire_labels ls @ of_nat (length l') # l' @ rest"
  define pre where "pre = wire_labels ls"
  have ll: "0 < length l'" "length l' \<le> 63" using assms(2) decodeLabel_Inr_length by blast+
  have small: "0 + sum_list (map length ls) \<le> 255" using assms(3) by simp
  have "NameFromUint8Array_loop bytes 0 0 [] =
        NameFromUint8Array_loop bytes (length pre) (sum_list (map length ls)) ls"
    using NameFromUint8Array_loop_wire [OF assms(1) small, of "[]" "of_nat (length l') # l' @ rest" "[]"]
    by (simp add: bytes_def pre_def)
  also have "\<dots> = Inl NameTooLong"
  proof (rule NameFromUint8Array_loop_too_long)
    show "getUint8 bytes (length pre) = Inr (length l')"
      using ll by (simp add: getUint8_def bytes_def pre_def unat_label_length)
    show "length l' \<noteq> 0" using ll by simp
    show "length pre + 1 + length l' \<le> length bytes" by (simp add: bytes_def pre_def)
    show "decodeLabel (subarray bytes (length pre + 1) (length pre + 1 + length l')) = Inr l'"
      using assms(2) by (simp add: subarray_def bytes_def pre_def)
    show "sum_list (map length ls) + length l' > 255" using assms(4) by simp
  qed
  finally have "NameFromUint8Array_loop bytes 0 0 [] = Inl NameTooLong" .
  moreover have "2 \<le> length bytes" using ll(1) by (cases l') (simp_all add: bytes_def)
  ultimately show ?thesis
    unfolding bytes_def by (rule decodeNameFromUint8Array_loop_Inl [rotated])
qed

text \<open>
  C6 fails on the code for the packet-aware decoder. A name of five 63-byte labels
  (315 label bytes) makes the standalone decoder fail with \<open>NameTooLong\<close>, at the
  fifth label. The packet-aware decoder, on the same bytes at cursor offset 0, reads
  them through \<open>subarray(offset, offset + 255)\<close> and fails with \<open>LabelOverrun\<close> at the
  fourth label (offset 192, running total 189), before the size check can fire.
\<close>

theorem NameTooLong_window_failing_input:
  "decodeNameFromUint8Array (wire_labels (replicate 5 (replicate 63 97)) @ [0])
     = Inl NameTooLong
   \<and> decodeNameFromDnsPacketCursor
        \<lparr>uint8Array = wire_labels (replicate 5 (replicate 63 97)) @ [0], offset = 0\<rparr>
       = Some (Inl (LabelOverrun 192))"
proof
  define lab :: "u8 list" where "lab = replicate 63 97"
  have v: "decodeLabel lab = Inr lab" unfolding lab_def by code_simp
  have len: "length lab = 63" by (simp add: lab_def)
  have "replicate (4 + 1) lab = replicate 4 lab @ replicate 1 lab" by (rule replicate_add)
  then have five: "replicate 5 lab = replicate 4 lab @ [lab]" by simp
  have "decodeNameFromUint8Array (wire_labels (replicate 4 lab) @ of_nat (length lab) # lab @ [0])
     = Inl NameTooLong"
    by (rule standalone_NameTooLong_at_crossing) (simp_all add: v len sum_list_replicate)
  then have "decodeNameFromUint8Array (wire_labels (replicate 5 lab) @ [0]) = Inl NameTooLong"
    by (simp add: five)
  then show "decodeNameFromUint8Array (wire_labels (replicate 5 (replicate 63 97)) @ [0])
     = Inl NameTooLong"
    unfolding lab_def .
  show "decodeNameFromDnsPacketCursor
        \<lparr>uint8Array = wire_labels (replicate 5 (replicate 63 97)) @ [0], offset = 0\<rparr>
       = Some (Inl (LabelOverrun 192))"
    by code_simp
qed

section \<open>Pointer bytes in the standalone decoder\<close>

lemma NameFromUint8Array_loop_pointer_byte:
  assumes "getUint8 bytes off = Inr b" and "192 \<le> b"
  shows "NameFromUint8Array_loop bytes off ns acc = Inl (LabelOverrun off)
       \<or> NameFromUint8Array_loop bytes off ns acc = Inl (InvalidLabel (LabelLength b))"
proof -
  have nz: "b \<noteq> 0" using assms(2) by simp
  show ?thesis
  proof (cases "off + 1 + b > length bytes")
    case True
    then have "NameFromUint8Array_loop bytes off ns acc = Inl (LabelOverrun off)"
      using assms(1) nz by (subst NameFromUint8Array_loop.simps) simp
    then show ?thesis by simp
  next
    case False
    then have len: "length (subarray bytes (off + 1) (off + 1 + b)) = b"
      by (simp add: length_subarray)
    then have "decodeLabel (subarray bytes (off + 1) (off + 1 + b))
        = Inl (InvalidLabel (LabelLength b))"
      using assms(2) decodeLabel_too_long [of "subarray bytes (off + 1) (off + 1 + b)"] by simp
    then have "NameFromUint8Array_loop bytes off ns acc = Inl (InvalidLabel (LabelLength b))"
      using assms(1) nz False by (subst NameFromUint8Array_loop.simps) simp
    then show ?thesis by simp
  qed
qed

text \<open>
  C10. The standalone decoder has no pointer branch: a length byte whose top two bits
  are 11 (a value from 192 to 255, for which \<open>byteIsPointer\<close> holds) is a label length.
  At any state of the loop that reads such a byte the decode fails, with \<open>LabelOverrun\<close>
  when that many bytes do not follow and with the length issue of \<open>InvalidLabel\<close> when
  they do; so does \<open>decodeNameFromUint8Array\<close> on every buffer in which such a byte
  follows valid labels. (A successful decode has read exactly the literal wire form of
  its labels from offset 0, by \<open>decodeNameFromUint8Array_length\<close> above.)
\<close>

theorem standalone_pointer_byte_is_length:
  "(getUint8 bytes off = Inr b \<and> 192 \<le> b \<longrightarrow>
      byteIsPointer b
      \<and> (NameFromUint8Array_loop bytes off ns acc = Inl (LabelOverrun off)
         \<or> NameFromUint8Array_loop bytes off ns acc = Inl (InvalidLabel (LabelLength b))))
   \<and> ((\<forall>l \<in> set ls. decodeLabel l = Inr l) \<and> sum_list (map length ls) \<le> 255
       \<and> 192 \<le> unat c \<and> 2 \<le> length (wire_labels ls @ c # rest) \<longrightarrow>
      decodeNameFromUint8Array (wire_labels ls @ c # rest)
        = Inl (LabelOverrun (length (wire_labels ls)))
      \<or> decodeNameFromUint8Array (wire_labels ls @ c # rest)
        = Inl (InvalidLabel (LabelLength (unat c))))"
proof (intro conjI impI)
  assume a: "getUint8 bytes off = Inr b \<and> 192 \<le> b"
  then have "b < 256" using getUint8_lt_256 by blast
  then show "byteIsPointer b" using a by (simp add: byteIsPointer_iff)
  show "NameFromUint8Array_loop bytes off ns acc = Inl (LabelOverrun off)
       \<or> NameFromUint8Array_loop bytes off ns acc = Inl (InvalidLabel (LabelLength b))"
    using a NameFromUint8Array_loop_pointer_byte by blast
next
  assume a: "(\<forall>l \<in> set ls. decodeLabel l = Inr l) \<and> sum_list (map length ls) \<le> 255
       \<and> 192 \<le> unat c \<and> 2 \<le> length (wire_labels ls @ c # rest)"
  define buf where "buf = wire_labels ls @ c # rest"
  define off where "off = length (wire_labels ls)"
  have v: "\<forall>l \<in> set ls. decodeLabel l = Inr l" and small: "0 + sum_list (map length ls) \<le> 255"
    using a by simp_all
  have two: "2 \<le> length buf" using a by (simp add: buf_def)
  have run: "NameFromUint8Array_loop buf 0 0 [] =
        NameFromUint8Array_loop buf off (sum_list (map length ls)) ls"
    using NameFromUint8Array_loop_wire [OF v small, of "[]" "c # rest" "[]"]
    by (simp add: buf_def off_def)
  have g: "getUint8 buf off = Inr (unat c)" by (simp add: getUint8_def buf_def off_def)
  have big: "192 \<le> unat c" using a by simp
  have "NameFromUint8Array_loop buf 0 0 [] = Inl (LabelOverrun off)
      \<or> NameFromUint8Array_loop buf 0 0 [] = Inl (InvalidLabel (LabelLength (unat c)))"
    using NameFromUint8Array_loop_pointer_byte [OF g big] run by simp
  then have "decodeNameFromUint8Array buf = Inl (LabelOverrun off)
      \<or> decodeNameFromUint8Array buf = Inl (InvalidLabel (LabelLength (unat c)))"
    using two decodeNameFromUint8Array_loop_Inl by blast
  then show "decodeNameFromUint8Array (wire_labels ls @ c # rest)
        = Inl (LabelOverrun (length (wire_labels ls)))
      \<or> decodeNameFromUint8Array (wire_labels ls @ c # rest)
        = Inl (InvalidLabel (LabelLength (unat c)))"
    by (simp add: buf_def off_def)
qed

theorem standalone_pointer_byte_is_length_witness:
  "byteIsPointer 192
   \<and> NameFromUint8Array_loop [1, 97, 192, 0, 1, 98, 0] 2 1 [[97]] = Inl (LabelOverrun 2)
   \<and> decodeNameFromUint8Array [1, 97, 192, 0, 1, 98, 0] = Inl (LabelOverrun 2)"
proof -
  have g: "getUint8 [1, 97, 192, 0, 1, 98, 0] 2 = Inr 192 \<and> (192::nat) \<le> 192"
    by (simp add: getUint8_def)
  have v: "decodeLabel [97] = Inr [97]" by code_simp
  have h: "(\<forall>l \<in> set [[97]]. decodeLabel l = Inr l) \<and> sum_list (map length [[97 :: u8]]) \<le> 255
       \<and> 192 \<le> unat (192 :: u8) \<and> 2 \<le> length (wire_labels [[97]] @ 192 # [0, 1, 98, 0])"
    using v by simp
  have n1: "NameFromUint8Array_loop [1, 97, 192, 0, 1, 98, 0] 2 1 [[97]]
      \<noteq> Inl (InvalidLabel (LabelLength 192))"
    by code_simp
  have n2: "decodeNameFromUint8Array [1, 97, 192, 0, 1, 98, 0] \<noteq> Inl (InvalidLabel (LabelLength 192))"
    by code_simp
  from standalone_pointer_byte_is_length [where bytes = "[1, 97, 192, 0, 1, 98, 0]" and off = 2
      and b = 192 and ns = 1 and acc = "[[97]]" and ls = "[[97]]" and c = 192
      and rest = "[0, 1, 98, 0]"] g h n1 n2
  show ?thesis by simp
qed

section \<open>Termination of the packet-aware decoder\<close>

lemma NameFromDnsPacketCursor_step_measure:
  assumes "NameFromDnsPacketCursor_step packet window s = Inr s'"
  shows "loop_measure packet s' < loop_measure packet s"
proof -
  from assms obtain byte where g: "getUint8 (s_dataView s) (s_offset s) = Inr byte"
    by (auto simp: NameFromDnsPacketCursor_step_def split: sum.splits)
  then have off: "s_offset s < length (s_dataView s)" by (simp add: getUint8_Inr_iff)
  show ?thesis
  proof (cases "byteIsPointer byte")
    case True
    with assms g have np: "\<not> s_encounteredPointer s"
      by (auto simp: NameFromDnsPacketCursor_step_def split: if_splits)
    with assms g True obtain v where
      "s' = s\<lparr>s_encounteredPointer := True, s_offset := getPointerOffset v,
               s_bytesConsumed := s_bytesConsumed s + 2, s_dataView := packet\<rparr>"
      by (auto simp: NameFromDnsPacketCursor_step_def split: sum.splits)
    then show ?thesis using np by (simp add: loop_measure_def)
  next
    case False
    with assms g obtain label where
      "s' = s\<lparr>s_nameSize := s_nameSize s + length label,
               s_labels := s_labels s @ [label],
               s_offset := s_offset s + (byte + 1),
               s_bytesConsumed :=
                 (if s_encounteredPointer s then s_bytesConsumed s
                  else s_offset s + (byte + 1))\<rparr>"
      by (auto simp: NameFromDnsPacketCursor_step_def split: sum.splits if_splits)
    then show ?thesis using off by (simp add: loop_measure_def)
  qed
qed

lemma NameFromDnsPacketCursor_loop_total:
  "\<exists>r. NameFromDnsPacketCursor_loop packet window s = Some r"
proof (induction "loop_measure packet s" arbitrary: s rule: less_induct)
  case less
  show ?case
  proof (cases "NameFromDnsPacketCursor_step packet window s")
    case (Inl result)
    then show ?thesis using NameFromDnsPacketCursor_loop_leave by blast
  next
    case (Inr s')
    then have "loop_measure packet s' < loop_measure packet s"
      by (rule NameFromDnsPacketCursor_step_measure)
    then have "\<exists>r. NameFromDnsPacketCursor_loop packet window s' = Some r"
      by (rule less)
    then show ?thesis using NameFromDnsPacketCursor_loop_continue [OF Inr] by simp
  qed
qed

text \<open>
  C8. The packet-aware decoder returns on every packet and cursor offset: its loop,
  started in any state, leaves after finitely many rounds, since a round either follows
  the one pointer that can be followed or moves the read offset forward inside the
  current view.
\<close>

theorem decodeNameFromDnsPacketCursor_terminates:
  "(\<exists>r. decodeNameFromDnsPacketCursor cursor = Some r)
   \<and> (\<exists>r. NameFromDnsPacketCursor_loop packet window s = Some r)"
proof
  obtain r where r: "NameFromDnsPacketCursor_loop (uint8Array cursor) (cursor_window cursor)
      (initial_state (cursor_window cursor)) = Some r"
    using NameFromDnsPacketCursor_loop_total by blast
  then have "\<exists>r'. NameFromDnsPacketCursor_decode cursor = Some r'"
    by (cases r) (auto simp: NameFromDnsPacketCursor_decode_def)
  then show "\<exists>r. decodeNameFromDnsPacketCursor cursor = Some r"
    by (auto simp: decodeNameFromDnsPacketCursor_def split: sum.splits)
  show "\<exists>r. NameFromDnsPacketCursor_loop packet window s = Some r"
    by (rule NameFromDnsPacketCursor_loop_total)
qed

section \<open>Compression pointers are followed once\<close>

lemma follows_pointer_not_encountered: "follows_pointer s \<Longrightarrow> \<not> s_encounteredPointer s"
  by (auto simp: follows_pointer_def split: sum.splits)

lemma NameFromDnsPacketCursor_step_flag:
  assumes "NameFromDnsPacketCursor_step packet window s = Inr s'"
  shows "s_encounteredPointer s' = (s_encounteredPointer s \<or> follows_pointer s)"
proof -
  from assms obtain byte where g: "getUint8 (s_dataView s) (s_offset s) = Inr byte"
    by (auto simp: NameFromDnsPacketCursor_step_def split: sum.splits)
  show ?thesis
  proof (cases "byteIsPointer byte")
    case True
    with assms g have np: "\<not> s_encounteredPointer s"
      by (auto simp: NameFromDnsPacketCursor_step_def split: if_splits)
    with assms g True obtain v where v: "getUint16 (s_dataView s) (s_offset s) = Inr v"
      and "s' = s\<lparr>s_encounteredPointer := True, s_offset := getPointerOffset v,
               s_bytesConsumed := s_bytesConsumed s + 2, s_dataView := packet\<rparr>"
      by (auto simp: NameFromDnsPacketCursor_step_def split: sum.splits)
    then show ?thesis using g True np by (simp add: follows_pointer_def)
  next
    case False
    with assms g obtain label where
      "s' = s\<lparr>s_nameSize := s_nameSize s + length label,
               s_labels := s_labels s @ [label],
               s_offset := s_offset s + (byte + 1),
               s_bytesConsumed :=
                 (if s_encounteredPointer s then s_bytesConsumed s
                  else s_offset s + (byte + 1))\<rparr>"
      by (auto simp: NameFromDnsPacketCursor_step_def split: sum.splits if_splits)
    then show ?thesis using g False by (simp add: follows_pointer_def)
  qed
qed

lemma NameFromDnsPacketCursor_iterate_flag:
  "NameFromDnsPacketCursor_iterate n packet window s = Some s' \<Longrightarrow>
     s_encounteredPointer s \<Longrightarrow> s_encounteredPointer s'"
proof (induction n arbitrary: s)
  case 0
  then show ?case by simp
next
  case (Suc n)
  from Suc.prems(1) obtain s1 where st: "NameFromDnsPacketCursor_step packet window s = Inr s1"
    and it: "NameFromDnsPacketCursor_iterate n packet window s1 = Some s'"
    by (auto split: sum.splits)
  have "s_encounteredPointer s1" using NameFromDnsPacketCursor_step_flag [OF st] Suc.prems(2) by simp
  then show ?case using Suc.IH it by blast
qed

lemma NameFromDnsPacketCursor_iterate_add:
  "NameFromDnsPacketCursor_iterate (m + n) packet window s =
     (case NameFromDnsPacketCursor_iterate m packet window s of
        None \<Rightarrow> None
      | Some s' \<Rightarrow> NameFromDnsPacketCursor_iterate n packet window s')"
proof (induction m arbitrary: s)
  case 0
  then show ?case by simp
next
  case (Suc m)
  show ?case
  proof (cases "NameFromDnsPacketCursor_step packet window s")
    case (Inl result)
    then show ?thesis by simp
  next
    case (Inr s1)
    then show ?thesis using Suc.IH [of s1] by simp
  qed
qed

lemma NameFromDnsPacketCursor_followed_flag:
  assumes "NameFromDnsPacketCursor_iterate i packet window s0 = Some si"
    and "follows_pointer si" and "i < j"
    and "NameFromDnsPacketCursor_iterate j packet window s0 = Some sj"
  shows "s_encounteredPointer sj"
proof -
  obtain k where j: "j = i + Suc k" using assms(3) by (auto simp: less_iff_Suc_add)
  have e: "NameFromDnsPacketCursor_iterate (i + Suc k) packet window s0 =
      NameFromDnsPacketCursor_iterate (Suc k) packet window si"
    by (simp only: NameFromDnsPacketCursor_iterate_add assms(1) option.simps)
  have f: "NameFromDnsPacketCursor_iterate (i + Suc k) packet window s0 = Some sj"
    using assms(4) unfolding j .
  have "NameFromDnsPacketCursor_iterate (Suc k) packet window si = Some sj"
    by (rule trans [OF e [symmetric] f])
  then obtain s1 where st: "NameFromDnsPacketCursor_step packet window si = Inr s1"
    and it: "NameFromDnsPacketCursor_iterate k packet window s1 = Some sj"
    by (auto split: sum.splits)
  have "s_encounteredPointer s1"
    using NameFromDnsPacketCursor_step_flag [OF st] assms(2) by simp
  then show ?thesis using it NameFromDnsPacketCursor_iterate_flag by blast
qed

lemma one_pointer_followed:
  assumes "NameFromDnsPacketCursor_iterate i packet window s0 = Some si"
    and "follows_pointer si" and "i < j"
    and "NameFromDnsPacketCursor_iterate j packet window s0 = Some sj"
  shows "\<not> follows_pointer sj"
  using NameFromDnsPacketCursor_followed_flag [OF assms] follows_pointer_not_encountered
  by blast

lemma NameFromDnsPacketCursor_iterate_loop:
  "NameFromDnsPacketCursor_iterate n packet window s0 = Some s \<Longrightarrow>
     NameFromDnsPacketCursor_loop packet window s0 = NameFromDnsPacketCursor_loop packet window s"
proof (induction n arbitrary: s0)
  case 0
  then show ?case by simp
next
  case (Suc n)
  from Suc.prems obtain s1 where st: "NameFromDnsPacketCursor_step packet window s0 = Inr s1"
    and it: "NameFromDnsPacketCursor_iterate n packet window s1 = Some s"
    by (auto split: sum.splits)
  have "NameFromDnsPacketCursor_loop packet window s0 = NameFromDnsPacketCursor_loop packet window s1"
    using st by (rule NameFromDnsPacketCursor_loop_continue)
  also have "\<dots> = NameFromDnsPacketCursor_loop packet window s"
    using it by (rule Suc.IH)
  finally show ?case .
qed

lemma decodeNameFromDnsPacketCursor_loop_Inl:
  assumes "2 \<le> length (cursor_window cursor)"
    and "NameFromDnsPacketCursor_loop (uint8Array cursor) (cursor_window cursor)
           (initial_state (cursor_window cursor)) = Some (Inl e)"
  shows "decodeNameFromDnsPacketCursor cursor = Some (Inl e)"
  using assms
  by (simp add: decodeNameFromDnsPacketCursor_def NameFromDnsPacketCursor_decode_def)

lemma recursive_pointer_step:
  assumes "s_encounteredPointer s" and "getUint8 (s_dataView s) (s_offset s) = Inr byte"
    and "byteIsPointer byte"
  shows "NameFromDnsPacketCursor_loop packet window s = Some (Inl RecursivePointer)"
proof -
  have "NameFromDnsPacketCursor_step packet window s = Inl (Inl RecursivePointer)"
    using assms by (simp add: NameFromDnsPacketCursor_step_def)
  then show ?thesis by (rule NameFromDnsPacketCursor_loop_leave)
qed

text \<open>The first round at a cursor whose next two bytes are a compression pointer.\<close>

lemma pointer_at_cursor_step:
  assumes "getUint8 window 0 = Inr b0" and "byteIsPointer b0" and "getUint16 window 0 = Inr v"
  shows "NameFromDnsPacketCursor_step packet window (initial_state window) =
           Inr \<lparr>s_dataView = packet, s_offset = getPointerOffset v, s_bytesConsumed = 2,
                s_nameSize = 0, s_encounteredPointer = True, s_labels = []\<rparr>"
  using assms by (simp add: NameFromDnsPacketCursor_step_def initial_state_def)

text \<open>
  C5. In the packet-aware decoder, when a round has followed a pointer and a later round
  of the same decode reads, as its next length byte, a byte whose top two bits are 11,
  the decode fails with \<open>RecursivePointer\<close>; along any run of the loop at most one
  round follows a pointer; in particular a pointer at the cursor whose target byte is
  again a pointer marker (two pointers pointing at each other, for one) fails with
  \<open>RecursivePointer\<close>.
\<close>

theorem second_pointer_is_RecursivePointer:
  "(2 \<le> length (cursor_window cursor)
      \<and> NameFromDnsPacketCursor_iterate i (uint8Array cursor) (cursor_window cursor)
            (initial_state (cursor_window cursor)) = Some si
      \<and> follows_pointer si \<and> i < n
      \<and> NameFromDnsPacketCursor_iterate n (uint8Array cursor) (cursor_window cursor)
            (initial_state (cursor_window cursor)) = Some s
      \<and> getUint8 (s_dataView s) (s_offset s) = Inr byte \<and> byteIsPointer byte \<longrightarrow>
      decodeNameFromDnsPacketCursor cursor = Some (Inl RecursivePointer))
   \<and> (NameFromDnsPacketCursor_iterate i' packet window s0 = Some si' \<and> follows_pointer si'
      \<and> i' < j \<and> NameFromDnsPacketCursor_iterate j packet window s0 = Some sj \<longrightarrow>
      \<not> follows_pointer sj)
   \<and> (2 \<le> length (cursor_window cursor') \<and> getUint8 (cursor_window cursor') 0 = Inr b0
      \<and> byteIsPointer b0 \<and> getUint16 (cursor_window cursor') 0 = Inr v
      \<and> getUint8 (uint8Array cursor') (getPointerOffset v) = Inr b1 \<and> byteIsPointer b1 \<longrightarrow>
      decodeNameFromDnsPacketCursor cursor' = Some (Inl RecursivePointer))"
proof (intro conjI impI)
  assume a: "2 \<le> length (cursor_window cursor)
      \<and> NameFromDnsPacketCursor_iterate i (uint8Array cursor) (cursor_window cursor)
            (initial_state (cursor_window cursor)) = Some si
      \<and> follows_pointer si \<and> i < n
      \<and> NameFromDnsPacketCursor_iterate n (uint8Array cursor) (cursor_window cursor)
            (initial_state (cursor_window cursor)) = Some s
      \<and> getUint8 (s_dataView s) (s_offset s) = Inr byte \<and> byteIsPointer byte"
  then have flag: "s_encounteredPointer s"
    using NameFromDnsPacketCursor_followed_flag by blast
  have "NameFromDnsPacketCursor_loop (uint8Array cursor) (cursor_window cursor)
      (initial_state (cursor_window cursor)) =
      NameFromDnsPacketCursor_loop (uint8Array cursor) (cursor_window cursor) s"
    using a NameFromDnsPacketCursor_iterate_loop by blast
  also have "\<dots> = Some (Inl RecursivePointer)"
    using flag a recursive_pointer_step by blast
  finally show "decodeNameFromDnsPacketCursor cursor = Some (Inl RecursivePointer)"
    using a decodeNameFromDnsPacketCursor_loop_Inl by blast
next
  assume "NameFromDnsPacketCursor_iterate i' packet window s0 = Some si' \<and> follows_pointer si'
      \<and> i' < j \<and> NameFromDnsPacketCursor_iterate j packet window s0 = Some sj"
  then show "\<not> follows_pointer sj" using one_pointer_followed by blast
next
  assume a: "2 \<le> length (cursor_window cursor') \<and> getUint8 (cursor_window cursor') 0 = Inr b0
      \<and> byteIsPointer b0 \<and> getUint16 (cursor_window cursor') 0 = Inr v
      \<and> getUint8 (uint8Array cursor') (getPointerOffset v) = Inr b1 \<and> byteIsPointer b1"
  define s1 where "s1 = \<lparr>s_dataView = uint8Array cursor', s_offset = getPointerOffset v,
      s_bytesConsumed = 2, s_nameSize = 0, s_encounteredPointer = True, s_labels = []\<rparr>"
  have "NameFromDnsPacketCursor_step (uint8Array cursor') (cursor_window cursor')
      (initial_state (cursor_window cursor')) = Inr s1"
    unfolding s1_def using a pointer_at_cursor_step by blast
  then have "NameFromDnsPacketCursor_loop (uint8Array cursor') (cursor_window cursor')
      (initial_state (cursor_window cursor')) =
      NameFromDnsPacketCursor_loop (uint8Array cursor') (cursor_window cursor') s1"
    by (rule NameFromDnsPacketCursor_loop_continue)
  also have "\<dots> = Some (Inl RecursivePointer)"
    using a by (intro recursive_pointer_step [where byte = b1]) (simp_all add: s1_def)
  finally show "decodeNameFromDnsPacketCursor cursor' = Some (Inl RecursivePointer)"
    using a decodeNameFromDnsPacketCursor_loop_Inl by blast
qed

theorem second_pointer_is_RecursivePointer_witness:
  "decodeNameFromDnsPacketCursor \<lparr>uint8Array = [192, 2, 192, 0], offset = 0\<rparr>
     = Some (Inl RecursivePointer)
   \<and> follows_pointer (initial_state [192, 2, 192, 0])
   \<and> \<not> follows_pointer
        \<lparr>s_dataView = [192, 2, 192, 0], s_offset = 2, s_bytesConsumed = 2,
         s_nameSize = 0, s_encounteredPointer = True, s_labels = []\<rparr>"
proof -
  define c where "c = \<lparr>uint8Array = [192, 2, 192, 0], offset = 0\<rparr>"
  define p :: "u8 list" where "p = [192, 2, 192, 0]"
  define s0 where "s0 = initial_state p"
  define s1 where "s1 = \<lparr>s_dataView = p, s_offset = 2, s_bytesConsumed = 2,
      s_nameSize = 0, s_encounteredPointer = True, s_labels = []\<rparr>"
  have bp: "byteIsPointer 192" by (simp add: byteIsPointer_def)
  have po: "getPointerOffset 49154 = 2" by (simp add: getPointerOffset_def)
  have w: "cursor_window c = p" and u: "uint8Array c = p"
    by (simp_all add: c_def p_def cursor_window_def subarray_def MAX_NAME_BYTE_LENGTH_def)
  have f0: "follows_pointer s0"
    using bp
    by (simp add: s0_def p_def initial_state_def follows_pointer_def getUint8_def getUint16_def)
  have st0: "NameFromDnsPacketCursor_step p p s0 = Inr s1"
    using bp po
    by (simp add: s0_def s1_def p_def initial_state_def NameFromDnsPacketCursor_step_def
        getUint8_def getUint16_def)
  have g1: "getUint8 (s_dataView s1) (s_offset s1) = Inr 192"
    by (simp add: s1_def p_def getUint8_def)
  have h1: "2 \<le> length (cursor_window c)
      \<and> NameFromDnsPacketCursor_iterate 0 (uint8Array c) (cursor_window c)
            (initial_state (cursor_window c)) = Some s0
      \<and> follows_pointer s0 \<and> (0::nat) < 1
      \<and> NameFromDnsPacketCursor_iterate 1 (uint8Array c) (cursor_window c)
            (initial_state (cursor_window c)) = Some s1
      \<and> getUint8 (s_dataView s1) (s_offset s1) = Inr 192 \<and> byteIsPointer 192"
    using f0 st0 g1 bp unfolding w u s0_def [symmetric] by (simp add: p_def)
  have h2: "NameFromDnsPacketCursor_iterate 0 p p s0 = Some s0
      \<and> follows_pointer s0 \<and> (0::nat) < 1
      \<and> NameFromDnsPacketCursor_iterate 1 p p s0 = Some s1"
    using f0 st0 by simp
  have h3: "2 \<le> length (cursor_window c) \<and> getUint8 (cursor_window c) 0 = Inr 192
      \<and> byteIsPointer 192 \<and> getUint16 (cursor_window c) 0 = Inr 49154
      \<and> getUint8 (uint8Array c) (getPointerOffset 49154) = Inr 192 \<and> byteIsPointer 192"
    using bp po unfolding w u by (simp add: p_def getUint8_def getUint16_def)
  have a: "decodeNameFromDnsPacketCursor c = Some (Inl RecursivePointer)"
    by (rule second_pointer_is_RecursivePointer [where cursor = c and i = 0 and n = 1
        and si = s0 and s = s1 and byte = 192,
        THEN conjunct1, THEN mp, OF h1])
  have b: "\<not> follows_pointer s1"
    by (rule second_pointer_is_RecursivePointer [where i' = 0 and j = 1 and packet = p
        and window = p and ?s0.0 = s0 and si' = s0 and sj = s1,
        THEN conjunct2, THEN conjunct1, THEN mp, OF h2])
  have d: "decodeNameFromDnsPacketCursor c = Some (Inl RecursivePointer)"
    by (rule second_pointer_is_RecursivePointer [where cursor' = c and ?b0.0 = 192
        and v = 49154 and ?b1.0 = 192,
        THEN conjunct2, THEN conjunct2, THEN mp, OF h3])
  have "decodeNameFromDnsPacketCursor c = Some (Inl RecursivePointer)
      \<and> follows_pointer s0 \<and> \<not> follows_pointer s1"
    using a b f0 by (intro conjI)
  then show ?thesis unfolding c_def s0_def s1_def p_def .
qed

section \<open>A pointer at the cursor\<close>

lemma decodeNameFromDnsPacketCursor_loop_Inr:
  assumes "2 \<le> length (cursor_window cursor)"
    and "NameFromDnsPacketCursor_loop (uint8Array cursor) (cursor_window cursor)
           (initial_state (cursor_window cursor)) = Some (Inr (ls, consumed))"
  shows "decodeNameFromDnsPacketCursor cursor =
           Some (Name_schema \<lparr>labels = ls, encodedByteLength = consumed\<rparr>)"
  using assms
  by (simp add: decodeNameFromDnsPacketCursor_def NameFromDnsPacketCursor_decode_def)

text \<open>
  C1 fails on the code. In a response whose question name \<open>example.com\<close> stands at
  offset 12 and whose answer name at offset 29 is the pointer \<open>C0 0C\<close> to it, decoding
  at offset 12 returns the two labels, but decoding at the pointer fails: after the
  jump the length byte 7 is read from the packet at offset 12, the label's bytes from
  \<open>uint8Array.subarray(13, 20)\<close>, which is still the window that starts at the cursor
  (there the last three bytes of the record data). In the second packet the decode at
  the pointer succeeds, with the label \<open>z\<close> that follows the pointer instead of the
  label \<open>a\<close> at the pointer's target.
\<close>

theorem pointer_decode_failing_input:
  "decodeNameFromDnsPacketCursor
      \<lparr>uint8Array =
         [0, 1, 129, 128, 0, 1, 0, 1, 0, 0, 0, 0,
          7, 101, 120, 97, 109, 112, 108, 101, 3, 99, 111, 109, 0, 0, 1, 0, 1,
          192, 12, 0, 1, 0, 1, 0, 0, 0, 60, 0, 4, 93, 184, 216, 34],
       offset = 12\<rparr>
     = Some (Inr \<lparr>labels = [[101, 120, 97, 109, 112, 108, 101], [99, 111, 109]],
                  encodedByteLength = 12\<rparr>)
   \<and> decodeNameFromDnsPacketCursor
      \<lparr>uint8Array =
         [0, 1, 129, 128, 0, 1, 0, 1, 0, 0, 0, 0,
          7, 101, 120, 97, 109, 112, 108, 101, 3, 99, 111, 109, 0, 0, 1, 0, 1,
          192, 12, 0, 1, 0, 1, 0, 0, 0, 60, 0, 4, 93, 184, 216, 34],
       offset = 29\<rparr>
     = Some (Inl (InvalidLabel (InvalidCharacter (Some 184))))
   \<and> decodeNameFromDnsPacketCursor
      \<lparr>uint8Array = [0, 1, 97, 0, 192, 1, 122, 0], offset = 1\<rparr>
     = Some (Inr \<lparr>labels = [[97]], encodedByteLength = 2\<rparr>)
   \<and> decodeNameFromDnsPacketCursor
      \<lparr>uint8Array = [0, 1, 97, 0, 192, 1, 122, 0], offset = 4\<rparr>
     = Some (Inr \<lparr>labels = [[122]], encodedByteLength = 2\<rparr>)"
proof (intro conjI)
  define P :: "u8 list" where "P =
         [0, 1, 129, 128, 0, 1, 0, 1, 0, 0, 0, 0,
          7, 101, 120, 97, 109, 112, 108, 101, 3, 99, 111, 109, 0, 0, 1, 0, 1,
          192, 12, 0, 1, 0, 1, 0, 0, 0, 60, 0, 4, 93, 184, 216, 34]"
  define W :: "u8 list" where "W = [192, 12, 0, 1, 0, 1, 0, 0, 0, 60, 0, 4, 93, 184, 216, 34]"
  define c where "c = \<lparr>uint8Array = P, offset = 29\<rparr>"
  define s1 where "s1 = \<lparr>s_dataView = P, s_offset = 12, s_bytesConsumed = 2,
      s_nameSize = 0, s_encounteredPointer = True, s_labels = []\<rparr>"
  have bp: "byteIsPointer 192" and nbp: "\<not> byteIsPointer 7" "\<not> byteIsPointer 1"
      "\<not> byteIsPointer 0"
    by (simp_all add: byteIsPointer_def)
  have po: "getPointerOffset 49164 = 12" "getPointerOffset 49153 = 1"
    by (simp_all add: getPointerOffset_def)
  have w: "cursor_window c = W" and u: "uint8Array c = P"
    by (simp_all add: c_def P_def W_def cursor_window_def subarray_def MAX_NAME_BYTE_LENGTH_def)
  have lw: "2 \<le> length (cursor_window c)" by (simp add: w W_def)
  have st0: "NameFromDnsPacketCursor_step P W (initial_state W) = Inr s1"
    using bp po
    by (simp add: s1_def W_def initial_state_def NameFromDnsPacketCursor_step_def
        getUint8_def getUint16_def)
  have dl: "decodeLabel [184, 216, 34] = Inl (InvalidLabel (InvalidCharacter (Some 184)))"
    by code_simp
  have st1: "NameFromDnsPacketCursor_step P W s1 =
      Inl (Inl (InvalidLabel (InvalidCharacter (Some 184))))"
    using nbp dl
    by (simp add: s1_def P_def W_def NameFromDnsPacketCursor_step_def getUint8_def subarray_def)
  have "NameFromDnsPacketCursor_loop P W (initial_state W) = NameFromDnsPacketCursor_loop P W s1"
    using st0 by (rule NameFromDnsPacketCursor_loop_continue)
  also have "\<dots> = Some (Inl (InvalidLabel (InvalidCharacter (Some 184))))"
    using st1 by (rule NameFromDnsPacketCursor_loop_leave)
  finally have "decodeNameFromDnsPacketCursor c =
      Some (Inl (InvalidLabel (InvalidCharacter (Some 184))))"
    using lw by (intro decodeNameFromDnsPacketCursor_loop_Inl) (simp_all add: w u)
  then show "decodeNameFromDnsPacketCursor
      \<lparr>uint8Array =
         [0, 1, 129, 128, 0, 1, 0, 1, 0, 0, 0, 0,
          7, 101, 120, 97, 109, 112, 108, 101, 3, 99, 111, 109, 0, 0, 1, 0, 1,
          192, 12, 0, 1, 0, 1, 0, 0, 0, 60, 0, 4, 93, 184, 216, 34],
       offset = 29\<rparr>
     = Some (Inl (InvalidLabel (InvalidCharacter (Some 184))))"
    unfolding c_def P_def .
  show "decodeNameFromDnsPacketCursor
      \<lparr>uint8Array =
         [0, 1, 129, 128, 0, 1, 0, 1, 0, 0, 0, 0,
          7, 101, 120, 97, 109, 112, 108, 101, 3, 99, 111, 109, 0, 0, 1, 0, 1,
          192, 12, 0, 1, 0, 1, 0, 0, 0, 60, 0, 4, 93, 184, 216, 34],
       offset = 12\<rparr>
     = Some (Inr \<lparr>labels = [[101, 120, 97, 109, 112, 108, 101], [99, 111, 109]],
                  encodedByteLength = 12\<rparr>)"
    by code_simp
  show "decodeNameFromDnsPacketCursor
      \<lparr>uint8Array = [0, 1, 97, 0, 192, 1, 122, 0], offset = 1\<rparr>
     = Some (Inr \<lparr>labels = [[97]], encodedByteLength = 2\<rparr>)"
    by code_simp
  define Q :: "u8 list" where "Q = [0, 1, 97, 0, 192, 1, 122, 0]"
  define V :: "u8 list" where "V = [192, 1, 122, 0]"
  define d where "d = \<lparr>uint8Array = Q, offset = 4\<rparr>"
  define t1 where "t1 = \<lparr>s_dataView = Q, s_offset = 1, s_bytesConsumed = 2,
      s_nameSize = 0, s_encounteredPointer = True, s_labels = []\<rparr>"
  define t2 where "t2 = \<lparr>s_dataView = Q, s_offset = 3, s_bytesConsumed = 2,
      s_nameSize = 1, s_encounteredPointer = True, s_labels = [[122]]\<rparr>"
  have wd: "cursor_window d = V" and ud: "uint8Array d = Q"
    by (simp_all add: d_def Q_def V_def cursor_window_def subarray_def MAX_NAME_BYTE_LENGTH_def)
  have lv: "2 \<le> length (cursor_window d)" by (simp add: wd V_def)
  have r0: "NameFromDnsPacketCursor_step Q V (initial_state V) = Inr t1"
    using bp po
    by (simp add: t1_def V_def initial_state_def NameFromDnsPacketCursor_step_def
        getUint8_def getUint16_def)
  have dz: "decodeLabel [122] = Inr [122]" by code_simp
  have r1: "NameFromDnsPacketCursor_step Q V t1 = Inr t2"
    using nbp dz
    by (simp add: t1_def t2_def Q_def V_def NameFromDnsPacketCursor_step_def getUint8_def
        subarray_def)
  have r2: "NameFromDnsPacketCursor_step Q V t2 = Inl (Inr ([[122]], 2))"
    using nbp
    by (simp add: t2_def Q_def NameFromDnsPacketCursor_step_def getUint8_def)
  have "NameFromDnsPacketCursor_loop Q V (initial_state V) = NameFromDnsPacketCursor_loop Q V t1"
    using r0 by (rule NameFromDnsPacketCursor_loop_continue)
  also have "\<dots> = NameFromDnsPacketCursor_loop Q V t2"
    using r1 by (rule NameFromDnsPacketCursor_loop_continue)
  also have "\<dots> = Some (Inr ([[122]], 2))"
    using r2 by (rule NameFromDnsPacketCursor_loop_leave)
  finally have "decodeNameFromDnsPacketCursor d =
      Some (Name_schema \<lparr>labels = [[122]], encodedByteLength = 2\<rparr>)"
    using lv by (intro decodeNameFromDnsPacketCursor_loop_Inr) (simp_all add: wd ud)
  moreover have "Name_schema \<lparr>labels = [[122]], encodedByteLength = 2\<rparr> =
      Inr \<lparr>labels = [[122]], encodedByteLength = 2\<rparr>"
    by code_simp
  ultimately show "decodeNameFromDnsPacketCursor
      \<lparr>uint8Array = [0, 1, 97, 0, 192, 1, 122, 0], offset = 4\<rparr>
     = Some (Inr \<lparr>labels = [[122]], encodedByteLength = 2\<rparr>)"
    unfolding d_def Q_def by simp
qed

section \<open>The framer's cursor\<close>

lemma section_loop_reports:
  "section_loop decodeElement n cursor elements = Inr (xs, cursor') \<Longrightarrow>
     \<exists>rs. length rs = n \<and> xs = elements @ map fst rs \<and> reports 1 decodeElement cursor rs
       \<and> cursor' = cursor\<lparr>offset := offset cursor + sum_list (map snd rs) + n\<rparr>"
proof (induction n arbitrary: cursor elements)
  case 0
  then have a: "xs = elements" and b: "cursor' = cursor" by simp_all
  show ?case
  proof (intro exI conjI)
    show "length [] = (0::nat)" by simp
    show "xs = elements @ map fst []" using a by simp
    show "reports 1 decodeElement cursor []" by simp
    show "cursor' = cursor\<lparr>offset := offset cursor + sum_list (map snd []) + 0\<rparr>"
      using b by simp
  qed
next
  case (Suc n)
  from Suc.prems obtain x len where d: "decodeElement cursor = Inr (x, len)"
    by (auto split: sum.splits)
  define next_cursor where "next_cursor = cursor\<lparr>offset := offset cursor + (len + 1)\<rparr>"
  have rec: "section_loop decodeElement n next_cursor (elements @ [x]) = Inr (xs, cursor')"
    using Suc.prems d by (simp add: next_cursor_def)
  from Suc.IH [OF rec] obtain rs where rs: "length rs = n" "xs = (elements @ [x]) @ map fst rs"
      "reports 1 decodeElement next_cursor rs"
      "cursor' = next_cursor\<lparr>offset := offset next_cursor + sum_list (map snd rs) + n\<rparr>"
    by blast
  have "length ((x, len) # rs) = Suc n" using rs(1) by simp
  moreover have "xs = elements @ map fst ((x, len) # rs)" using rs(2) by simp
  moreover have "reports 1 decodeElement cursor ((x, len) # rs)"
    using d rs(3) by (simp add: next_cursor_def)
  moreover have "cursor' =
      cursor\<lparr>offset := offset cursor + sum_list (map snd ((x, len) # rs)) + Suc n\<rparr>"
    using rs(4) by (simp add: next_cursor_def add.assoc)
  ultimately show ?case by blast
qed

text \<open>
  C2, as stated, fails: with a header of two questions and an element decoder that
  reports 5 bytes for every element, the second question is decoded at offset 18, not
  at 17, and the cursor ends at 24, not at 22: after each element the framer advances
  the cursor by one byte more than the length the decoder reported.
\<close>

theorem framer_advance_counterexample:
  "MessageFromUint8Array_run two_questions_header five_byte_element five_byte_element
      (replicate 30 0)
     = Inr (\<lparr>header = \<lparr>qdcount = 2, ancount = 0, nscount = 0, arcount = 0\<rparr>,
             question = [12, 18], answer = [], authority = [], additional = []\<rparr>,
            \<lparr>uint8Array = replicate 30 0, offset = 24\<rparr>)
   \<and> \<not> reports 0 five_byte_element \<lparr>uint8Array = replicate 30 0, offset = 12\<rparr>
         [(12, 5), (18, 5)]"
  by (simp add: MessageFromUint8Array_run_def two_questions_header_def five_byte_element_def
      fromUint8Array_def HEADER_BYTE_LENGTH_def numeral_2_eq_2)

text \<open>
  C2, amended. For every question, answer, authority and additional element it decodes,
  the framer advances the shared cursor offset by the consumed byte length reported by
  that element's decoder plus one: the questions are decoded from offset 12 on, each
  section starts where the one before ended, each element is decoded at the offset of
  the element before it plus that element's reported length plus 1, and the cursor ends
  at 12 plus all the reported lengths plus the number of elements.
\<close>

theorem framer_advance:
  assumes "MessageFromUint8Array_run decodeHeaderFromUint8Array
      decodeQuestionFromDnsPacketCursor decodeResourceRecordFromDnsPacketCursor bytes
      = Inr (message, cursor)"
  shows "\<exists>qs ans auths adds.
      length qs = qdcount (header message) \<and> question message = map fst qs
      \<and> length ans = ancount (header message) \<and> answer message = map fst ans
      \<and> length auths = nscount (header message) \<and> authority message = map fst auths
      \<and> length adds = arcount (header message) \<and> additional message = map fst adds
      \<and> reports 1 decodeQuestionFromDnsPacketCursor \<lparr>uint8Array = bytes, offset = 12\<rparr> qs
      \<and> reports 1 decodeResourceRecordFromDnsPacketCursor
           \<lparr>uint8Array = bytes, offset = 12 + (sum_list (map snd qs) + length qs)\<rparr> ans
      \<and> reports 1 decodeResourceRecordFromDnsPacketCursor
           \<lparr>uint8Array = bytes,
            offset = 12 + (sum_list (map snd qs) + length qs)
                       + (sum_list (map snd ans) + length ans)\<rparr> auths
      \<and> reports 1 decodeResourceRecordFromDnsPacketCursor
           \<lparr>uint8Array = bytes,
            offset = 12 + (sum_list (map snd qs) + length qs)
                       + (sum_list (map snd ans) + length ans)
                       + (sum_list (map snd auths) + length auths)\<rparr> adds
      \<and> cursor = \<lparr>uint8Array = bytes,
            offset = 12 + (sum_list (map snd qs) + length qs)
                       + (sum_list (map snd ans) + length ans)
                       + (sum_list (map snd auths) + length auths)
                       + (sum_list (map snd adds) + length adds)\<rparr>"
proof -
  define c0 where "c0 = \<lparr>uint8Array = bytes, offset = 12\<rparr>"
  have start: "(fromUint8Array bytes)\<lparr>offset := offset (fromUint8Array bytes) + HEADER_BYTE_LENGTH\<rparr>
      = c0"
    by (simp add: fromUint8Array_def HEADER_BYTE_LENGTH_def c0_def)
  from assms obtain hdr where
    h: "decodeHeaderFromUint8Array
          (subarray bytes (offset (fromUint8Array bytes)) HEADER_BYTE_LENGTH) = Inr hdr"
    unfolding MessageFromUint8Array_run_def by (auto split: sum.splits)
  from assms h obtain questions c1 where
    q: "section_loop decodeQuestionFromDnsPacketCursor (qdcount hdr) c0 [] = Inr (questions, c1)"
    unfolding MessageFromUint8Array_run_def start by (auto split: sum.splits)
  from assms h q obtain answers c2 where
    a: "section_loop decodeResourceRecordFromDnsPacketCursor (ancount hdr) c1 [] = Inr (answers, c2)"
    unfolding MessageFromUint8Array_run_def start by (auto split: sum.splits)
  from assms h q a obtain authorityRecords c3 where
    n: "section_loop decodeResourceRecordFromDnsPacketCursor (nscount hdr) c2 []
          = Inr (authorityRecords, c3)"
    unfolding MessageFromUint8Array_run_def start by (auto split: sum.splits)
  from assms h q a n obtain additionalRecords c4 where
    r: "section_loop decodeResourceRecordFromDnsPacketCursor (arcount hdr) c3 []
          = Inr (additionalRecords, c4)"
    unfolding MessageFromUint8Array_run_def start by (auto split: sum.splits)
  from assms h q a n r have m: "message = \<lparr>header = hdr, question = questions, answer = answers,
      authority = authorityRecords, additional = additionalRecords\<rparr>" and c: "cursor = c4"
    unfolding MessageFromUint8Array_run_def start by simp_all
  from section_loop_reports [OF q] obtain qs where qs: "length qs = qdcount hdr"
      "questions = map fst qs" "reports 1 decodeQuestionFromDnsPacketCursor c0 qs"
      "c1 = c0\<lparr>offset := offset c0 + sum_list (map snd qs) + qdcount hdr\<rparr>"
    by auto
  from section_loop_reports [OF a] obtain ans where ans: "length ans = ancount hdr"
      "answers = map fst ans" "reports 1 decodeResourceRecordFromDnsPacketCursor c1 ans"
      "c2 = c1\<lparr>offset := offset c1 + sum_list (map snd ans) + ancount hdr\<rparr>"
    by auto
  from section_loop_reports [OF n] obtain auths where auths: "length auths = nscount hdr"
      "authorityRecords = map fst auths" "reports 1 decodeResourceRecordFromDnsPacketCursor c2 auths"
      "c3 = c2\<lparr>offset := offset c2 + sum_list (map snd auths) + nscount hdr\<rparr>"
    by auto
  from section_loop_reports [OF r] obtain adds where adds: "length adds = arcount hdr"
      "additionalRecords = map fst adds" "reports 1 decodeResourceRecordFromDnsPacketCursor c3 adds"
      "c4 = c3\<lparr>offset := offset c3 + sum_list (map snd adds) + arcount hdr\<rparr>"
    by auto
  have e1: "c1 = \<lparr>uint8Array = bytes, offset = 12 + (sum_list (map snd qs) + length qs)\<rparr>"
    using qs(1,4) by (simp add: c0_def)
  have e2: "c2 = \<lparr>uint8Array = bytes, offset = 12 + (sum_list (map snd qs) + length qs)
      + (sum_list (map snd ans) + length ans)\<rparr>"
    using ans(1,4) by (simp add: e1)
  have e3: "c3 = \<lparr>uint8Array = bytes, offset = 12 + (sum_list (map snd qs) + length qs)
      + (sum_list (map snd ans) + length ans) + (sum_list (map snd auths) + length auths)\<rparr>"
    using auths(1,4) by (simp add: e2)
  have e4: "c4 = \<lparr>uint8Array = bytes, offset = 12 + (sum_list (map snd qs) + length qs)
      + (sum_list (map snd ans) + length ans) + (sum_list (map snd auths) + length auths)
      + (sum_list (map snd adds) + length adds)\<rparr>"
    using adds(1,4) by (simp add: e3)
  show ?thesis
    apply (rule exI [of _ qs], rule exI [of _ ans], rule exI [of _ auths], rule exI [of _ adds])
    using qs(1,2,3) ans(1,2,3) auths(1,2,3) adds(1,2,3) e1 e2 e3 e4 m c
    by (simp add: c0_def)
qed

theorem framer_advance_witness:
  "\<exists>qs ans auths adds.
      length qs = qdcount (header
        (\<lparr>header = \<lparr>qdcount = 2, ancount = 0, nscount = 0, arcount = 0\<rparr>,
          question = [12, 18 :: nat], answer = [] :: nat list, authority = [],
          additional = []\<rparr>)) \<and> question
        (\<lparr>header = \<lparr>qdcount = 2, ancount = 0, nscount = 0, arcount = 0\<rparr>,
          question = [12, 18 :: nat], answer = [] :: nat list, authority = [],
          additional = []\<rparr>) = map fst qs
      \<and> length ans = ancount (header
        (\<lparr>header = \<lparr>qdcount = 2, ancount = 0, nscount = 0, arcount = 0\<rparr>,
          question = [12, 18 :: nat], answer = [] :: nat list, authority = [],
          additional = []\<rparr>)) \<and> answer
        (\<lparr>header = \<lparr>qdcount = 2, ancount = 0, nscount = 0, arcount = 0\<rparr>,
          question = [12, 18 :: nat], answer = [] :: nat list, authority = [],
          additional = []\<rparr>) = map fst ans
      \<and> length auths = nscount (header
        (\<lparr>header = \<lparr>qdcount = 2, ancount = 0, nscount = 0, arcount = 0\<rparr>,
          question = [12, 18 :: nat], answer = [] :: nat list, authority = [],
          additional = []\<rparr>)) \<and> authority
        (\<lparr>header = \<lparr>qdcount = 2, ancount = 0, nscount = 0, arcount = 0\<rparr>,
          question = [12, 18 :: nat], answer = [] :: nat list, authority = [],
          additional = []\<rparr>) = map fst auths
      \<and> length adds = arcount (header
        (\<lparr>header = \<lparr>qdcount = 2, ancount = 0, nscount = 0, arcount = 0\<rparr>,
          question = [12, 18 :: nat], answer = [] :: nat list, authority = [],
          additional = []\<rparr>)) \<and> additional
        (\<lparr>header = \<lparr>qdcount = 2, ancount = 0, nscount = 0, arcount = 0\<rparr>,
          question = [12, 18 :: nat], answer = [] :: nat list, authority = [],
          additional = []\<rparr>) = map fst adds
      \<and> reports 1 five_byte_element \<lparr>uint8Array = replicate 30 0, offset = 12\<rparr> qs
      \<and> reports 1 five_byte_element
           \<lparr>uint8Array = replicate 30 0, offset = 12 + (sum_list (map snd qs) + length qs)\<rparr> ans
      \<and> reports 1 five_byte_element
           \<lparr>uint8Array = replicate 30 0,
            offset = 12 + (sum_list (map snd qs) + length qs)
                       + (sum_list (map snd ans) + length ans)\<rparr> auths
      \<and> reports 1 five_byte_element
           \<lparr>uint8Array = replicate 30 0,
            offset = 12 + (sum_list (map snd qs) + length qs)
                       + (sum_list (map snd ans) + length ans)
                       + (sum_list (map snd auths) + length auths)\<rparr> adds
      \<and> \<lparr>uint8Array = replicate 30 0, offset = 24\<rparr>
        = \<lparr>uint8Array = replicate 30 0,
            offset = 12 + (sum_list (map snd qs) + length qs)
                       + (sum_list (map snd ans) + length ans)
                       + (sum_list (map snd auths) + length auths)
                       + (sum_list (map snd adds) + length adds)\<rparr>"
proof -
  have run: "MessageFromUint8Array_run two_questions_header five_byte_element five_byte_element
      (replicate 30 0)
     = Inr (\<lparr>header = \<lparr>qdcount = 2, ancount = 0, nscount = 0, arcount = 0\<rparr>,
             question = [12, 18], answer = [], authority = [], additional = []\<rparr>,
            \<lparr>uint8Array = replicate 30 0, offset = 24\<rparr>)"
    by (simp add: MessageFromUint8Array_run_def two_questions_header_def five_byte_element_def
        fromUint8Array_def HEADER_BYTE_LENGTH_def numeral_2_eq_2)
  show ?thesis by (rule framer_advance [OF run])
qed

end
